theory Spec2Isabelle
  imports Main "HOL-Library.Monad_Syntax"
begin

section \<open>The dense tree: LazyPropSegtree\<close>

text \<open>
  The class of \<^verbatim>\<open>LazyPropSegtree.hpp\<close> is a record of its six members (a name
  cannot end in an underscore here, so \<^verbatim>\<open>tree_\<close> is \<open>seg_tree\<close>, and so on). The template
  parameters \<^verbatim>\<open>op\<close>, \<^verbatim>\<open>updVal\<close> and \<^verbatim>\<open>updLazy\<close> are arguments of every operation.
  Indices are \<^verbatim>\<open>int\<close> in the source; they are natural numbers here, which is exact for a
  tree that was constructed (\<^verbatim>\<open>2 * size_\<close> fits an \<^verbatim>\<open>int\<close>, \<^verbatim>\<open>size_\<close> is at least 1)
  and arguments \<^verbatim>\<open>0 <= left <= right\<close>. \<^verbatim>\<open>std::vector::operator[]\<close> does not check
  its index; an access outside the vector is undefined behaviour and is the result
  \<open>None\<close> of the model.
\<close>

record ('t, 'u) LazyPropSegtree =
  seg_size :: nat
  seg_LOG :: nat
  seg_identityOp :: 't
  seg_identityUpdate :: 'u
  seg_tree :: "'t list"
  seg_lazy :: "'u list"

definition tree_at :: "('t, 'u) LazyPropSegtree \<Rightarrow> nat \<Rightarrow> 't option" where
  "tree_at s i = (if i < length (seg_tree s) then Some (seg_tree s ! i) else None)"

definition lazy_at :: "('t, 'u) LazyPropSegtree \<Rightarrow> nat \<Rightarrow> 'u option" where
  "lazy_at s i = (if i < length (seg_lazy s) then Some (seg_lazy s ! i) else None)"

definition tree_set ::
  "('t, 'u) LazyPropSegtree \<Rightarrow> nat \<Rightarrow> 't \<Rightarrow> ('t, 'u) LazyPropSegtree option" where
  "tree_set s i v =
     (if i < length (seg_tree s) then Some (s\<lparr>seg_tree := (seg_tree s)[i := v]\<rparr>) else None)"

definition lazy_set ::
  "('t, 'u) LazyPropSegtree \<Rightarrow> nat \<Rightarrow> 'u \<Rightarrow> ('t, 'u) LazyPropSegtree option" where
  "lazy_set s i v =
     (if i < length (seg_lazy s) then Some (s\<lparr>seg_lazy := (seg_lazy s)[i := v]\<rparr>) else None)"

text \<open>\<^verbatim>\<open>tree_[i] = updVal(tree_[i], value)\<close> and \<^verbatim>\<open>lazy_[i] = updLazy(lazy_[i], value)\<close>.\<close>

definition tree_upd ::
  "('t \<Rightarrow> 'u \<Rightarrow> 't) \<Rightarrow> nat \<Rightarrow> 'u \<Rightarrow> ('t, 'u) LazyPropSegtree \<Rightarrow> ('t, 'u) LazyPropSegtree option" where
  "tree_upd updVal i v s = do { t \<leftarrow> tree_at s i; tree_set s i (updVal t v) }"

definition lazy_upd ::
  "('u \<Rightarrow> 'u \<Rightarrow> 'u) \<Rightarrow> nat \<Rightarrow> 'u \<Rightarrow> ('t, 'u) LazyPropSegtree \<Rightarrow> ('t, 'u) LazyPropSegtree option" where
  "lazy_upd updLazy i v s = do { a \<leftarrow> lazy_at s i; lazy_set s i (updLazy a v) }"

subsection \<open>Construction\<close>

text \<open>
  \<^verbatim>\<open>__builtin_clz\<close> of a positive 32-bit value is 32 minus its bit length.
\<close>

fun bitlen :: "nat \<Rightarrow> nat" where
  "bitlen n = (if n = 0 then 0 else Suc (bitlen (n div 2)))"

declare bitlen.simps [simp del]

definition builtin_clz :: "nat \<Rightarrow> nat" where
  "builtin_clz x = 32 - bitlen x"

text \<open>
  The loop \<^verbatim>\<open>for (int i = size_ - 1; i > 0; --i) tree_[i] = op(tree_[2 * i], tree_[2 * i + 1])\<close>
  of the iterator constructor, started at \<open>i\<close>. Its reads and writes are inside the
  vector of length \<^verbatim>\<open>2 * size_\<close>.
\<close>

primrec build_loop :: "('t \<Rightarrow> 't \<Rightarrow> 't) \<Rightarrow> nat \<Rightarrow> 't list \<Rightarrow> 't list" where
  "build_loop op 0 t = t"
| "build_loop op (Suc k) t =
     build_loop op k (t[Suc k := op (t ! (2 * Suc k)) (t ! (2 * Suc k + 1))])"

text \<open>
  The constructor from an iterator range. \<^verbatim>\<open>tree_(2 * size_)\<close> value-initialises every
  slot with \<^verbatim>\<open>T()\<close>, the argument \<open>dflt\<close>; the range is copied to the upper half.
\<close>

definition LazyPropSegtree_range ::
  "('t \<Rightarrow> 't \<Rightarrow> 't) \<Rightarrow> 't \<Rightarrow> 't list \<Rightarrow> 't \<Rightarrow> 'u \<Rightarrow> ('t, 'u) LazyPropSegtree" where
  "LazyPropSegtree_range op dflt xs identityOp identityUpdate =
     \<lparr> seg_size = length xs,
       seg_LOG = 32 - builtin_clz (length xs),
       seg_identityOp = identityOp,
       seg_identityUpdate = identityUpdate,
       seg_tree = build_loop op (length xs - 1) (replicate (length xs) dflt @ xs),
       seg_lazy = replicate (length xs) identityUpdate \<rparr>"

text \<open>The constructor from a size.\<close>

definition LazyPropSegtree_size ::
  "nat \<Rightarrow> 't \<Rightarrow> 'u \<Rightarrow> ('t, 'u) LazyPropSegtree" where
  "LazyPropSegtree_size n identityOp identityUpdate =
     \<lparr> seg_size = n,
       seg_LOG = 31 - builtin_clz n,
       seg_identityOp = identityOp,
       seg_identityUpdate = identityUpdate,
       seg_tree = replicate (2 * n) identityOp,
       seg_lazy = replicate n identityUpdate \<rparr>"

subsection \<open>Propagate\<close>

text \<open>
  One round of the \<^verbatim>\<open>for\<close> loop of \<^verbatim>\<open>Propagate\<close> at node \<open>i\<close>. Every statement reads
  \<^verbatim>\<open>lazy_[i]\<close> again, as the source does.
\<close>

definition push_inner ::
  "('t \<Rightarrow> 'u \<Rightarrow> 't) \<Rightarrow> ('u \<Rightarrow> 'u \<Rightarrow> 'u) \<Rightarrow> nat \<Rightarrow>
   ('t, 'u) LazyPropSegtree \<Rightarrow> ('t, 'u) LazyPropSegtree option" where
  "push_inner updVal updLazy i s =
     do { l \<leftarrow> lazy_at s i;
          if l \<noteq> seg_identityUpdate s then
            do { l1 \<leftarrow> lazy_at s i;
                 s1 \<leftarrow> tree_upd updVal (2 * i) l1 s;
                 l2 \<leftarrow> lazy_at s1 i;
                 s2 \<leftarrow> lazy_upd updLazy (2 * i) l2 s1;
                 l3 \<leftarrow> lazy_at s2 i;
                 s3 \<leftarrow> tree_upd updVal (2 * i + 1) l3 s2;
                 l4 \<leftarrow> lazy_at s3 i;
                 s4 \<leftarrow> lazy_upd updLazy (2 * i + 1) l4 s3;
                 lazy_set s4 i (seg_identityUpdate s4) }
          else Some s }"

text \<open>The statements after the loop, at the parent \<open>pos\<close> of a leaf.\<close>

definition push_last ::
  "('t \<Rightarrow> 'u \<Rightarrow> 't) \<Rightarrow> nat \<Rightarrow> ('t, 'u) LazyPropSegtree \<Rightarrow> ('t, 'u) LazyPropSegtree option" where
  "push_last updVal pos s =
     do { l \<leftarrow> lazy_at s pos;
          if l \<noteq> seg_identityUpdate s then
            do { l1 \<leftarrow> lazy_at s pos;
                 s1 \<leftarrow> tree_upd updVal (2 * pos) l1 s;
                 l2 \<leftarrow> lazy_at s1 pos;
                 s2 \<leftarrow> tree_upd updVal (2 * pos + 1) l2 s1;
                 lazy_set s2 pos (seg_identityUpdate s2) }
          else Some s }"

text \<open>\<^verbatim>\<open>for (int shift = LOG_; shift > 1; --shift)\<close>, with \<^verbatim>\<open>pos >> shift\<close> as a division.\<close>

fun Propagate_loop ::
  "('t \<Rightarrow> 'u \<Rightarrow> 't) \<Rightarrow> ('u \<Rightarrow> 'u \<Rightarrow> 'u) \<Rightarrow> nat \<Rightarrow> nat \<Rightarrow>
   ('t, 'u) LazyPropSegtree \<Rightarrow> ('t, 'u) LazyPropSegtree option" where
  "Propagate_loop updVal updLazy shift pos s =
     (if 1 < shift then
        (case push_inner updVal updLazy (pos div 2 ^ shift) s of
           None \<Rightarrow> None
         | Some s' \<Rightarrow> Propagate_loop updVal updLazy (shift - 1) pos s')
      else Some s)"

declare Propagate_loop.simps [simp del]

definition Propagate ::
  "('t \<Rightarrow> 'u \<Rightarrow> 't) \<Rightarrow> ('u \<Rightarrow> 'u \<Rightarrow> 'u) \<Rightarrow> nat \<Rightarrow>
   ('t, 'u) LazyPropSegtree \<Rightarrow> ('t, 'u) LazyPropSegtree option" where
  "Propagate updVal updLazy pos s =
     do { s' \<leftarrow> Propagate_loop updVal updLazy (seg_LOG s) pos s;
          push_last updVal (pos div 2) s' }"

subsection \<open>Query\<close>

text \<open>
  The \<^verbatim>\<open>while (left < right)\<close> loop of \<^verbatim>\<open>Query\<close>; it reads the tree and changes only
  its local variables.
\<close>

fun Query_loop ::
  "('t \<Rightarrow> 't \<Rightarrow> 't) \<Rightarrow> ('t, 'u) LazyPropSegtree \<Rightarrow> nat \<Rightarrow> nat \<Rightarrow> 't \<Rightarrow> 't \<Rightarrow> 't option" where
  "Query_loop op s left right left_result right_result =
     (if left < right then
        (case (if left mod 2 = 1 then map_option (op left_result) (tree_at s left)
               else Some left_result) of
           None \<Rightarrow> None
         | Some lres \<Rightarrow>
            (case (if right mod 2 = 1
                   then map_option (\<lambda>t. op t right_result) (tree_at s (right - 1))
                   else Some right_result) of
               None \<Rightarrow> None
             | Some rres \<Rightarrow>
                 Query_loop op s
                   ((if left mod 2 = 1 then left + 1 else left) div 2)
                   ((if right mod 2 = 1 then right - 1 else right) div 2)
                   lres rres))
      else Some (op left_result right_result))"

declare Query_loop.simps [simp del]

definition Query ::
  "('t \<Rightarrow> 't \<Rightarrow> 't) \<Rightarrow> ('t \<Rightarrow> 'u \<Rightarrow> 't) \<Rightarrow> ('u \<Rightarrow> 'u \<Rightarrow> 'u) \<Rightarrow>
   ('t, 'u) LazyPropSegtree \<Rightarrow> nat \<Rightarrow> nat \<Rightarrow> ('t \<times> ('t, 'u) LazyPropSegtree) option" where
  "Query op updVal updLazy s left right =
     do { s1 \<leftarrow> Propagate updVal updLazy (left + seg_size s) s;
          s2 \<leftarrow> Propagate updVal updLazy (right + seg_size s - 1) s1;
          r \<leftarrow> Query_loop op s2 (left + seg_size s) (right + seg_size s)
                 (seg_identityOp s2) (seg_identityOp s2);
          Some (r, s2) }"

subsection \<open>Update\<close>

text \<open>The two \<^verbatim>\<open>if\<close> statements at the leaves, which no \<^verbatim>\<open>left < right\<close> guards.\<close>

definition Update_leaves ::
  "('t \<Rightarrow> 'u \<Rightarrow> 't) \<Rightarrow> 'u \<Rightarrow> nat \<Rightarrow> nat \<Rightarrow>
   ('t, 'u) LazyPropSegtree \<Rightarrow> ('t, 'u) LazyPropSegtree option" where
  "Update_leaves updVal v left right s =
     do { s1 \<leftarrow> (if left mod 2 = 1 then tree_upd updVal left v s else Some s);
          (if right mod 2 = 1 then tree_upd updVal (right - 1) v s1 else Some s1) }"

text \<open>
  The body of an \<^verbatim>\<open>if\<close> in the \<^verbatim>\<open>while\<close> loop of \<^verbatim>\<open>Update\<close>:
  \<^verbatim>\<open>tree_[i] = updVal(tree_[i], value); lazy_[i] = updLazy(lazy_[i], value)\<close>.
\<close>

definition touch ::
  "('t \<Rightarrow> 'u \<Rightarrow> 't) \<Rightarrow> ('u \<Rightarrow> 'u \<Rightarrow> 'u) \<Rightarrow> nat \<Rightarrow> 'u \<Rightarrow>
   ('t, 'u) LazyPropSegtree \<Rightarrow> ('t, 'u) LazyPropSegtree option" where
  "touch updVal updLazy i v s = do { s1 \<leftarrow> tree_upd updVal i v s; lazy_upd updLazy i v s1 }"

text \<open>The \<^verbatim>\<open>while (left < right)\<close> loop of \<^verbatim>\<open>Update\<close> over the internal levels.\<close>

fun Update_loop ::
  "('t \<Rightarrow> 'u \<Rightarrow> 't) \<Rightarrow> ('u \<Rightarrow> 'u \<Rightarrow> 'u) \<Rightarrow> 'u \<Rightarrow> nat \<Rightarrow> nat \<Rightarrow>
   ('t, 'u) LazyPropSegtree \<Rightarrow> ('t, 'u) LazyPropSegtree option" where
  "Update_loop updVal updLazy v left right s =
     (if left < right then
        (case (if left mod 2 = 1 then touch updVal updLazy left v s else Some s) of
           None \<Rightarrow> None
         | Some s1 \<Rightarrow>
            (case (if right mod 2 = 1 then touch updVal updLazy (right - 1) v s1
                   else Some s1) of
               None \<Rightarrow> None
             | Some s2 \<Rightarrow>
                 Update_loop updVal updLazy v
                   ((if left mod 2 = 1 then left + 1 else left) div 2)
                   ((if right mod 2 = 1 then right - 1 else right) div 2)
                   s2))
      else Some s)"

declare Update_loop.simps [simp del]

text \<open>
  The body of the loop of \<^verbatim>\<open>recalculate_after_update\<close>:
  \<^verbatim>\<open>tree_[pos] = op(tree_[2 * pos], tree_[2 * pos + 1]); tree_[pos] = updVal(tree_[pos], lazy_[pos])\<close>.
\<close>

definition recalc_step ::
  "('t \<Rightarrow> 't \<Rightarrow> 't) \<Rightarrow> ('t \<Rightarrow> 'u \<Rightarrow> 't) \<Rightarrow> nat \<Rightarrow>
   ('t, 'u) LazyPropSegtree \<Rightarrow> ('t, 'u) LazyPropSegtree option" where
  "recalc_step op updVal pos s =
     do { a \<leftarrow> tree_at s (2 * pos);
          b \<leftarrow> tree_at s (2 * pos + 1);
          s1 \<leftarrow> tree_set s pos (op a b);
          l \<leftarrow> lazy_at s1 pos;
          tree_upd updVal pos l s1 }"

text \<open>\<^verbatim>\<open>recalculate_after_update\<close>: \<^verbatim>\<open>pos /= 2\<close>, then the loop while \<^verbatim>\<open>pos > 0\<close>.\<close>

fun recalculate_loop ::
  "('t \<Rightarrow> 't \<Rightarrow> 't) \<Rightarrow> ('t \<Rightarrow> 'u \<Rightarrow> 't) \<Rightarrow> nat \<Rightarrow>
   ('t, 'u) LazyPropSegtree \<Rightarrow> ('t, 'u) LazyPropSegtree option" where
  "recalculate_loop op updVal pos s =
     (if 0 < pos then
        (case recalc_step op updVal pos s of
           None \<Rightarrow> None
         | Some s' \<Rightarrow> recalculate_loop op updVal (pos div 2) s')
      else Some s)"

declare recalculate_loop.simps [simp del]

definition recalculate_after_update ::
  "('t \<Rightarrow> 't \<Rightarrow> 't) \<Rightarrow> ('t \<Rightarrow> 'u \<Rightarrow> 't) \<Rightarrow> nat \<Rightarrow>
   ('t, 'u) LazyPropSegtree \<Rightarrow> ('t, 'u) LazyPropSegtree option" where
  "recalculate_after_update op updVal pos s = recalculate_loop op updVal (pos div 2) s"

definition Update ::
  "('t \<Rightarrow> 't \<Rightarrow> 't) \<Rightarrow> ('t \<Rightarrow> 'u \<Rightarrow> 't) \<Rightarrow> ('u \<Rightarrow> 'u \<Rightarrow> 'u) \<Rightarrow>
   ('t, 'u) LazyPropSegtree \<Rightarrow> nat \<Rightarrow> nat \<Rightarrow> 'u \<Rightarrow> ('t, 'u) LazyPropSegtree option" where
  "Update op updVal updLazy s left right v =
     (let l = left + seg_size s; r = right + seg_size s in
      do { s1 \<leftarrow> Update_leaves updVal v l r s;
           s2 \<leftarrow> Update_loop updVal updLazy v
                  ((if l mod 2 = 1 then l + 1 else l) div 2)
                  ((if r mod 2 = 1 then r - 1 else r) div 2) s1;
           s3 \<leftarrow> recalculate_after_update op updVal l s2;
           recalculate_after_update op updVal (r - 1) s3 })"

section \<open>The sparse tree: DynamicSegmentTree\<close>

subsection \<open>long long\<close>

text \<open>
  \<^verbatim>\<open>ll\<close> is a 64-bit signed integer. Its values are integers here; a sum that leaves
  the range wraps modulo \<open>2 ^ 64\<close>, and \<^verbatim>\<open>/\<close> truncates towards zero, as C++ division
  does.
\<close>

definition wrap64 :: "int \<Rightarrow> int" where
  "wrap64 x = (x + 2 ^ 63) mod 2 ^ 64 - 2 ^ 63"

definition cdiv :: "int \<Rightarrow> int \<Rightarrow> int" where
  "cdiv a b = sgn a * sgn b * (\<bar>a\<bar> div \<bar>b\<bar>)"

subsection \<open>Nodes\<close>

text \<open>
  A node holds \<^verbatim>\<open>start_\<close>, \<^verbatim>\<open>end_\<close>, \<^verbatim>\<open>middle_\<close>, \<^verbatim>\<open>value_\<close>, \<^verbatim>\<open>lazy_\<close> and its
  children. \<^verbatim>\<open>left_\<close> and \<^verbatim>\<open>right_\<close> are assigned together, by \<^verbatim>\<open>Propagate\<close> only, so
  they are one optional pair: \<open>None\<close> is two null pointers. The members
  \<^verbatim>\<open>identityOp_\<close> and \<^verbatim>\<open>identityUpdate_\<close> are copied from a node to the children it
  creates and never assigned; they are the arguments \<open>idOp\<close> and \<open>idUpd\<close> of the
  operations.
\<close>

datatype ('t, 'u) DynamicSegmentTree =
  Node (node_start: int) (node_end: int) (node_middle: int) (node_value: 't) (node_lazy: 'u)
       (node_children: "(('t, 'u) DynamicSegmentTree \<times> ('t, 'u) DynamicSegmentTree) option")

text \<open>The constructor: \<^verbatim>\<open>middle_((start + end) / 2)\<close>, no children.\<close>

definition middle_of :: "int \<Rightarrow> int \<Rightarrow> int" where
  "middle_of start end = cdiv (wrap64 (start + end)) 2"

definition new_node :: "int \<Rightarrow> int \<Rightarrow> 't \<Rightarrow> 'u \<Rightarrow> ('t, 'u) DynamicSegmentTree" where
  "new_node start end identityOp identityUpdate =
     Node start end (middle_of start end) identityOp identityUpdate None"

text \<open>
  The template parameter \<^verbatim>\<open>updLazy\<close> is called as
  \<^verbatim>\<open>updLazy(lazy_, value_, value, start_, end_)\<close> with references to the node's members.
  It is a function from the five values to the new \<^verbatim>\<open>lazy_\<close> and \<^verbatim>\<open>value_\<close> (a callback
  that only reads the range it is given). The template parameter \<^verbatim>\<open>updVal\<close> is not
  called anywhere in \<^verbatim>\<open>DynamicSegmentTree.cpp\<close>, so no operation below takes it.
\<close>

type_synonym ('t, 'u) lazy_op = "'u \<Rightarrow> 't \<Rightarrow> 'u \<Rightarrow> int \<Rightarrow> int \<Rightarrow> 'u \<times> 't"

fun call_updLazy ::
  "('t, 'u) lazy_op \<Rightarrow> 'u \<Rightarrow> ('t, 'u) DynamicSegmentTree \<Rightarrow> ('t, 'u) DynamicSegmentTree" where
  "call_updLazy updLazy u (Node s e m v lz k) =
     (case updLazy lz v u s e of (lz', v') \<Rightarrow> Node s e m v' lz' k)"

fun Propagate_dyn ::
  "('t, 'u) lazy_op \<Rightarrow> 't \<Rightarrow> 'u \<Rightarrow> ('t, 'u) DynamicSegmentTree \<Rightarrow> ('t, 'u) DynamicSegmentTree" where
  "Propagate_dyn updLazy idOp idUpd (Node s e m v lz k) =
     (case (case k of
              None \<Rightarrow> (new_node s m idOp idUpd, new_node (wrap64 (m + 1)) e idOp idUpd)
            | Some c \<Rightarrow> c) of
        (l, r) \<Rightarrow>
          if lz = idUpd then Node s e m v lz (Some (l, r))
          else Node s e m v idUpd (Some (call_updLazy updLazy lz l, call_updLazy updLazy lz r)))"

text \<open>
  \<^verbatim>\<open>Query\<close> and \<^verbatim>\<open>Update\<close> recurse into the children, and nothing in the source bounds
  the depth. The first argument counts the nested calls still allowed: \<open>None\<close> is a call
  that needs more. (The branch for a node without children after \<^verbatim>\<open>Propagate\<close> is
  never taken, see \<open>Propagate_dyn_children\<close>.) Both return the node as they leave it.
\<close>

fun Query_dyn ::
  "nat \<Rightarrow> ('t \<Rightarrow> 't \<Rightarrow> 't) \<Rightarrow> ('t, 'u) lazy_op \<Rightarrow> 't \<Rightarrow> 'u \<Rightarrow>
   ('t, 'u) DynamicSegmentTree \<Rightarrow> int \<Rightarrow> int \<Rightarrow> ('t \<times> ('t, 'u) DynamicSegmentTree) option" where
  "Query_dyn fuel op updLazy idOp idUpd n left right =
     (if right < node_start n \<or> node_end n < left then Some (idOp, n)
      else if left \<le> node_start n \<and> node_end n \<le> right then Some (node_value n, n)
      else
        (case fuel of
           0 \<Rightarrow> None
         | Suc f \<Rightarrow>
            (case Propagate_dyn updLazy idOp idUpd n of
               Node s e m v lz k \<Rightarrow>
                 (case k of
                    None \<Rightarrow> None
                  | Some (l, r) \<Rightarrow>
                     (case Query_dyn f op updLazy idOp idUpd l left right of
                        None \<Rightarrow> None
                      | Some (a, l') \<Rightarrow>
                         (case Query_dyn f op updLazy idOp idUpd r left right of
                            None \<Rightarrow> None
                          | Some (b, r') \<Rightarrow>
                              Some (op a b, Node s e m v lz (Some (l', r')))))))))"

declare Query_dyn.simps [simp del]

fun Update_dyn ::
  "nat \<Rightarrow> ('t \<Rightarrow> 't \<Rightarrow> 't) \<Rightarrow> ('t, 'u) lazy_op \<Rightarrow> 't \<Rightarrow> 'u \<Rightarrow>
   ('t, 'u) DynamicSegmentTree \<Rightarrow> int \<Rightarrow> int \<Rightarrow> 'u \<Rightarrow> ('t, 'u) DynamicSegmentTree option" where
  "Update_dyn fuel op updLazy idOp idUpd n left right val =
     (if right < node_start n \<or> node_end n < left then Some n
      else if left \<le> node_start n \<and> node_end n \<le> right then Some (call_updLazy updLazy val n)
      else
        (case fuel of
           0 \<Rightarrow> None
         | Suc f \<Rightarrow>
            (case Propagate_dyn updLazy idOp idUpd n of
               Node s e m v lz k \<Rightarrow>
                 (case k of
                    None \<Rightarrow> None
                  | Some (l, r) \<Rightarrow>
                     (case Update_dyn f op updLazy idOp idUpd l left right val of
                        None \<Rightarrow> None
                      | Some l' \<Rightarrow>
                         (case Update_dyn f op updLazy idOp idUpd r left right val of
                            None \<Rightarrow> None
                          | Some r' \<Rightarrow>
                              Some (Node s e m (op (node_value l') (node_value r')) lz
                                      (Some (l', r')))))))))"

declare Update_dyn.simps [simp del]

text \<open>The number of nodes allocated in a tree.\<close>

fun node_count :: "('t, 'u) DynamicSegmentTree \<Rightarrow> nat" where
  "node_count (Node s e m v lz k) =
     (case k of None \<Rightarrow> 1 | Some (l, r) \<Rightarrow> 1 + node_count l + node_count r)"

section \<open>Sequences of calls and the reference array\<close>

text \<open>
  A client is a list of calls. \<open>run_dense\<close> performs them in order on a dense tree and
  returns the results of the queries and the final tree; \<open>None\<close> if a call leaves the
  vectors.
\<close>

datatype 'u call = CQuery nat nat | CUpdate nat nat 'u

fun run_dense ::
  "('t \<Rightarrow> 't \<Rightarrow> 't) \<Rightarrow> ('t \<Rightarrow> 'u \<Rightarrow> 't) \<Rightarrow> ('u \<Rightarrow> 'u \<Rightarrow> 'u) \<Rightarrow>
   ('t, 'u) LazyPropSegtree \<Rightarrow> 'u call list \<Rightarrow> ('t list \<times> ('t, 'u) LazyPropSegtree) option" where
  "run_dense op updVal updLazy s [] = Some ([], s)"
| "run_dense op updVal updLazy s (CQuery l r # cs) =
     (case Query op updVal updLazy s l r of
        None \<Rightarrow> None
      | Some (x, s') \<Rightarrow>
          (case run_dense op updVal updLazy s' cs of
             None \<Rightarrow> None
           | Some (xs, s'') \<Rightarrow> Some (x # xs, s'')))"
| "run_dense op updVal updLazy s (CUpdate l r v # cs) =
     (case Update op updVal updLazy s l r v of
        None \<Rightarrow> None
      | Some s' \<Rightarrow> run_dense op updVal updLazy s' cs)"

text \<open>The same for the sparse tree, whose ranges are inclusive.\<close>

datatype 'u scall = SQuery int int | SUpdate int int 'u

fun run_sparse ::
  "nat \<Rightarrow> ('t \<Rightarrow> 't \<Rightarrow> 't) \<Rightarrow> ('t, 'u) lazy_op \<Rightarrow> 't \<Rightarrow> 'u \<Rightarrow>
   ('t, 'u) DynamicSegmentTree \<Rightarrow> 'u scall list \<Rightarrow>
   ('t list \<times> ('t, 'u) DynamicSegmentTree) option" where
  "run_sparse fuel op updLazy idOp idUpd n [] = Some ([], n)"
| "run_sparse fuel op updLazy idOp idUpd n (SQuery l r # cs) =
     (case Query_dyn fuel op updLazy idOp idUpd n l r of
        None \<Rightarrow> None
      | Some (x, n') \<Rightarrow>
          (case run_sparse fuel op updLazy idOp idUpd n' cs of
             None \<Rightarrow> None
           | Some (xs, n'') \<Rightarrow> Some (x # xs, n'')))"
| "run_sparse fuel op updLazy idOp idUpd n (SUpdate l r v # cs) =
     (case Update_dyn fuel op updLazy idOp idUpd n l r v of
        None \<Rightarrow> None
      | Some n' \<Rightarrow> run_sparse fuel op updLazy idOp idUpd n' cs)"

text \<open>
  The reference of the specification's cross-check, in its words: an array on which an
  update is applied to each element of the half-open range and a query combines the
  elements of the range, each in time linear in the array.
\<close>

definition ref_update :: "('t \<Rightarrow> 'u \<Rightarrow> 't) \<Rightarrow> 't list \<Rightarrow> nat \<Rightarrow> nat \<Rightarrow> 'u \<Rightarrow> 't list" where
  "ref_update applyUpdate a l r u =
     map (\<lambda>i. if l \<le> i \<and> i < r then applyUpdate (a ! i) u else a ! i) [0..<length a]"

definition ref_query :: "('t \<Rightarrow> 't \<Rightarrow> 't) \<Rightarrow> 't \<Rightarrow> 't list \<Rightarrow> nat \<Rightarrow> nat \<Rightarrow> 't" where
  "ref_query combine idOp a l r = foldl combine idOp (take (r - l) (drop l a))"

fun run_ref ::
  "('t \<Rightarrow> 't \<Rightarrow> 't) \<Rightarrow> ('t \<Rightarrow> 'u \<Rightarrow> 't) \<Rightarrow> 't \<Rightarrow> 't list \<Rightarrow> 'u call list \<Rightarrow> 't list" where
  "run_ref combine applyUpdate idOp a [] = []"
| "run_ref combine applyUpdate idOp a (CQuery l r # cs) =
     ref_query combine idOp a l r # run_ref combine applyUpdate idOp a cs"
| "run_ref combine applyUpdate idOp a (CUpdate l r u # cs) =
     run_ref combine applyUpdate idOp (ref_update applyUpdate a l r u) cs"

section \<open>Client algebras\<close>

text \<open>
  The instances the documentation names. Minimum with \<^verbatim>\<open>INT_MAX\<close> as identity and
  addition as update is the example of the dense tree's README; assignment is listed
  there among the supported updates, an absent update (\<open>None\<close>) being its identity.
\<close>

definition INT_MAX :: int where
  "INT_MAX = 2147483647"

definition assignVal :: "int \<Rightarrow> int option \<Rightarrow> int" where
  "assignVal v u = (case u of None \<Rightarrow> v | Some x \<Rightarrow> x)"

definition assignLazy :: "int option \<Rightarrow> int option \<Rightarrow> int option" where
  "assignLazy a u = (case u of None \<Rightarrow> a | Some x \<Rightarrow> Some x)"

text \<open>
  A sum that knows how many elements it covers: the pair of the sum and the count, on
  which adding \<open>v\<close> to every element adds \<open>count * v\<close> to the sum.
\<close>

definition sum_op :: "int \<times> int \<Rightarrow> int \<times> int \<Rightarrow> int \<times> int" where
  "sum_op a b = (fst a + fst b, snd a + snd b)"

definition sum_add :: "int \<times> int \<Rightarrow> int \<Rightarrow> int \<times> int" where
  "sum_add a v = (fst a + snd a * v, snd a)"

text \<open>
  Callbacks of the sparse tree. \<open>spec_updLazy\<close> is the one the specification describes
  for a fully covered node: apply the update to the stored aggregate and compose it into
  the pending tag. \<open>readme_updLazy\<close> is the callback of the sparse tree's README
  (\<^verbatim>\<open>curval += v\<close>), which leaves the aggregate it is handed alone.
\<close>

definition spec_updLazy :: "('t \<Rightarrow> 'u \<Rightarrow> 't) \<Rightarrow> ('u \<Rightarrow> 'u \<Rightarrow> 'u) \<Rightarrow> ('t, 'u) lazy_op" where
  "spec_updLazy applyUpdate composeUpdate lz v u s e = (composeUpdate lz u, applyUpdate v u)"

definition readme_updLazy :: "(int, int) lazy_op" where
  "readme_updLazy curval val v left right = (curval + v, val)"

definition LLONG_MAX :: int where
  "LLONG_MAX = 9223372036854775807"

lemmas dense_defs = Query_def Update_def Propagate_def push_inner_def push_last_def
  Update_leaves_def recalculate_after_update_def touch_def recalc_step_def tree_upd_def lazy_upd_def tree_at_def
  lazy_at_def tree_set_def lazy_set_def LazyPropSegtree_range_def LazyPropSegtree_size_def
  builtin_clz_def Propagate_loop.simps Query_loop.simps Update_loop.simps
  recalculate_loop.simps bitlen.simps

lemmas sparse_defs = new_node_def middle_of_def wrap64_def cdiv_def Query_dyn.simps
  Update_dyn.simps

section \<open>Invariants of the sparse tree\<close>

text \<open>
  The indices some update of a list of calls covers, and the calls whose ranges lie in
  the domain \<open>[s, e]\<close> with \<^verbatim>\<open>left <= right\<close>.
\<close>

fun updated :: "'u scall list \<Rightarrow> int set" where
  "updated [] = {}"
| "updated (SQuery l r # cs) = updated cs"
| "updated (SUpdate l r u # cs) = {l..r} \<union> updated cs"

fun calls_within :: "int \<Rightarrow> int \<Rightarrow> 'u scall list \<Rightarrow> bool" where
  "calls_within s e [] = True"
| "calls_within s e (SQuery l r # cs) = (s \<le> l \<and> l \<le> r \<and> r \<le> e \<and> calls_within s e cs)"
| "calls_within s e (SUpdate l r u # cs) = (s \<le> l \<and> l \<le> r \<and> r \<le> e \<and> calls_within s e cs)"

text \<open>
  What holds of every node of a tree over a domain \<open>0 \<le> start \<le> end < 2^62\<close> when
  \<open>U\<close> is the set of indices updated so far: the range is not empty and its midpoint
  is the rounded-down mean; a node with a pending tag lies inside \<open>U\<close>; a node whose
  aggregate is not the identity meets \<open>U\<close>; the children split the range at the
  midpoint.
\<close>

definition node_ok :: "'t \<Rightarrow> 'u \<Rightarrow> int set \<Rightarrow> int \<Rightarrow> int \<Rightarrow> int \<Rightarrow> 't \<Rightarrow> 'u \<Rightarrow> bool" where
  "node_ok idOp idUpd U s e m v lz =
     (0 \<le> s \<and> s \<le> e \<and> e < 2 ^ 62 \<and> m = (s + e) div 2
      \<and> (lz \<noteq> idUpd \<longrightarrow> {s..e} \<subseteq> U)
      \<and> (v \<noteq> idOp \<longrightarrow> {s..e} \<inter> U \<noteq> {}))"

fun tree_inv :: "'t \<Rightarrow> 'u \<Rightarrow> int set \<Rightarrow> ('t, 'u) DynamicSegmentTree \<Rightarrow> bool" where
  "tree_inv idOp idUpd U (Node s e m v lz k) =
     (node_ok idOp idUpd U s e m v lz
      \<and> (case k of
            None \<Rightarrow> True
          | Some (l, r) \<Rightarrow>
              node_start l = s \<and> node_end l = m \<and> node_start r = m + 1 \<and> node_end r = e
              \<and> tree_inv idOp idUpd U l \<and> tree_inv idOp idUpd U r))"


section \<open>Invariants of the dense tree\<close>

text \<open>Calls with \<^verbatim>\<open>0 <= left <= right <= N\<close>, the bounds the README requires.\<close>

fun calls_in_bounds :: "nat \<Rightarrow> 'u call list \<Rightarrow> bool" where
  "calls_in_bounds N [] = True"
| "calls_in_bounds N (CQuery l r # cs) = (l \<le> r \<and> r \<le> N \<and> calls_in_bounds N cs)"
| "calls_in_bounds N (CUpdate l r u # cs) = (l \<le> r \<and> r \<le> N \<and> calls_in_bounds N cs)"

text \<open>
  The calls among them with \<^verbatim>\<open>left < N\<close>: every index that \<^verbatim>\<open>Query\<close> and \<^verbatim>\<open>Update\<close>
  compute from such a range lies inside the vectors. \<^verbatim>\<open>left = right = N\<close> is the one
  range within the README's bounds that is left out.
\<close>

fun calls_inside :: "nat \<Rightarrow> 'u call list \<Rightarrow> bool" where
  "calls_inside N [] = True"
| "calls_inside N (CQuery l r # cs) = (l \<le> r \<and> r \<le> N \<and> l < N \<and> calls_inside N cs)"
| "calls_inside N (CUpdate l r u # cs) = (l \<le> r \<and> r \<le> N \<and> l < N \<and> calls_inside N cs)"

text \<open>What no operation changes: the scalar members and the lengths of the vectors.\<close>

definition frame :: "('t, 'u) LazyPropSegtree \<Rightarrow> ('t, 'u) LazyPropSegtree \<Rightarrow> bool" where
  "frame s s' \<longleftrightarrow>
     seg_size s' = seg_size s \<and> seg_LOG s' = seg_LOG s \<and> seg_identityOp s' = seg_identityOp s
     \<and> seg_identityUpdate s' = seg_identityUpdate s
     \<and> length (seg_tree s') = length (seg_tree s) \<and> length (seg_lazy s') = length (seg_lazy s)"

text \<open>
  Node \<open>i\<close> is a whole node of a tree of size \<open>N\<close> when, for some height \<open>h \<ge> 1\<close>,
  its descendants \<open>h\<close> levels below are all leaves: \<open>N \<le> i * 2^h\<close> and
  \<open>(i + 1) * 2^h \<le> 2 * N\<close>. When \<open>N\<close> is not a power of two the root and the other
  nodes that mix leaves of two depths are not whole. \<open>tags_ok\<close>: the vectors have
  their lengths and only whole nodes hold a tag other than the identity.
\<close>

definition good :: "nat \<Rightarrow> nat \<Rightarrow> bool" where
  "good N i \<longleftrightarrow> (\<exists>h. 1 \<le> h \<and> N \<le> i * 2 ^ h \<and> (i + 1) * 2 ^ h \<le> 2 * N)"

definition tags_ok :: "nat \<Rightarrow> ('t, 'u) LazyPropSegtree \<Rightarrow> bool" where
  "tags_ok N s \<longleftrightarrow>
     seg_size s = N \<and> length (seg_tree s) = 2 * N \<and> length (seg_lazy s) = N
     \<and> (\<forall>i<N. seg_lazy s ! i \<noteq> seg_identityUpdate s \<longrightarrow> good N i)"

text \<open>
  Two trees agree when they differ at most in \<^verbatim>\<open>LOG_\<close> and in the unused slot
  \<^verbatim>\<open>tree_[0]\<close>. \<open>sim\<close> relates a tree made by the size constructor, whose \<^verbatim>\<open>LOG_\<close>
  is the bit length of \<open>N\<close> less one, to a tree made by the iterator constructor, whose
  \<^verbatim>\<open>LOG_\<close> is the bit length.
\<close>

definition agree :: "('t, 'u) LazyPropSegtree \<Rightarrow> ('t, 'u) LazyPropSegtree \<Rightarrow> bool" where
  "agree a b \<longleftrightarrow>
     seg_size a = seg_size b \<and> seg_identityOp a = seg_identityOp b
     \<and> seg_identityUpdate a = seg_identityUpdate b \<and> seg_lazy a = seg_lazy b
     \<and> length (seg_tree a) = length (seg_tree b)
     \<and> (\<forall>i. 1 \<le> i \<longrightarrow> i < length (seg_tree a) \<longrightarrow> seg_tree a ! i = seg_tree b ! i)"

definition sim :: "nat \<Rightarrow> ('t, 'u) LazyPropSegtree \<Rightarrow> ('t, 'u) LazyPropSegtree \<Rightarrow> bool" where
  "sim N a b \<longleftrightarrow> agree a b \<and> tags_ok N a \<and> 1 \<le> N
     \<and> seg_LOG a + 1 = bitlen N \<and> seg_LOG b = bitlen N"

text \<open>
  The laws of the client algebra that the local invariant below needs: the identity
  update changes nothing, an update distributes over the aggregate, and two updates
  applied in turn are the composed update applied once.
\<close>

definition laws :: "('t \<Rightarrow> 't \<Rightarrow> 't) \<Rightarrow> ('t \<Rightarrow> 'u \<Rightarrow> 't) \<Rightarrow> ('u \<Rightarrow> 'u \<Rightarrow> 'u) \<Rightarrow> 'u \<Rightarrow> bool" where
  "laws op applyUpdate composeUpdate idUpd \<longleftrightarrow>
     (\<forall>x. applyUpdate x idUpd = x)
     \<and> (\<forall>a b u. applyUpdate (op a b) u = op (applyUpdate a u) (applyUpdate b u))
     \<and> (\<forall>x u1 u2. applyUpdate (applyUpdate x u1) u2 = applyUpdate x (composeUpdate u1 u2))"

text \<open>
  The equation that \<^verbatim>\<open>recalculate_after_update\<close> establishes at node \<open>i\<close>:
  \<^verbatim>\<open>tree_[i] = updVal(op(tree_[2 * i], tree_[2 * i + 1]), lazy_[i])\<close>. \<open>linv_except\<close>: it
  holds at every internal node outside the set \<open>B\<close>. \<open>chain p\<close> is \<open>p\<close> with its
  ancestors (and 0), the nodes that \<^verbatim>\<open>recalculate_after_update\<close> rewrites from \<open>p\<close>.
\<close>

definition node_inv ::
  "('t \<Rightarrow> 't \<Rightarrow> 't) \<Rightarrow> ('t \<Rightarrow> 'u \<Rightarrow> 't) \<Rightarrow> ('t, 'u) LazyPropSegtree \<Rightarrow> nat \<Rightarrow> bool" where
  "node_inv op updVal s i \<longleftrightarrow>
     seg_tree s ! i = updVal (op (seg_tree s ! (2 * i)) (seg_tree s ! (2 * i + 1))) (seg_lazy s ! i)"

definition linv_except ::
  "('t \<Rightarrow> 't \<Rightarrow> 't) \<Rightarrow> ('t \<Rightarrow> 'u \<Rightarrow> 't) \<Rightarrow> nat \<Rightarrow> nat set \<Rightarrow> ('t, 'u) LazyPropSegtree \<Rightarrow> bool" where
  "linv_except op updVal N B s \<longleftrightarrow> (\<forall>i. 1 \<le> i \<and> i < N \<and> i \<notin> B \<longrightarrow> node_inv op updVal s i)"

definition chain :: "nat \<Rightarrow> nat set" where
  "chain p = {p div 2 ^ k | k. True}"

text \<open>Calls with a range that is not empty: \<^verbatim>\<open>0 <= left < right <= N\<close>.\<close>

fun calls_nonempty :: "nat \<Rightarrow> 'u call list \<Rightarrow> bool" where
  "calls_nonempty N [] = True"
| "calls_nonempty N (CQuery l r # cs) = (l < r \<and> r \<le> N \<and> calls_nonempty N cs)"
| "calls_nonempty N (CUpdate l r u # cs) = (l < r \<and> r \<le> N \<and> calls_nonempty N cs)"



section \<open>The documented scenarios, evaluated\<close>

text \<open>
  C2, as the claim states it: sum as aggregate and addition as update on plain integers,
  the tree built from \<open>[1, 2, 3, 4, 5]\<close>. The first query is 9 and the last is 13, but
  after \<^verbatim>\<open>Update(1, 4, 10)\<close> the query over \<open>[1, 4)\<close> is 29 and not 39: node 3 covers
  two elements and \<^verbatim>\<open>updVal\<close>, which is not told how many, adds 10 to it once.
\<close>

theorem C2_plain_sum_counterexample:
  "map_option fst
     (run_dense (+) (+) (+) (LazyPropSegtree_range (+) 0 [1, 2, 3, 4, 5] (0::int) (0::int))
        [CQuery 1 4, CUpdate 1 4 10, CQuery 1 4, CQuery 2 3]) = Some [9, 29, 13]
   \<and> map_option fst
     (run_dense (+) (+) (+) (LazyPropSegtree_range (+) 0 [1, 2, 3, 4, 5] (0::int) (0::int))
        [CQuery 1 4, CUpdate 1 4 10, CQuery 1 4, CQuery 2 3]) \<noteq> Some [9, 39, 13]"
  by (simp add: dense_defs)

text \<open>
  C2, amended: with a sum aggregate that carries its element count (pairs of sum and
  count, added componentwise, an update adding count times the value to the sum), the
  dense tree built from \<open>[1, 2, 3, 4, 5]\<close>, each with count 1, answers
  \<^verbatim>\<open>Query(1, 4)\<close> with the sum 9 of 3 elements; after \<^verbatim>\<open>Update(1, 4, 10)\<close> it answers
  \<^verbatim>\<open>Query(1, 4)\<close> with 39 and \<^verbatim>\<open>Query(2, 3)\<close> with 13.
\<close>

theorem C2_sum_with_count:
  "map_option fst
     (run_dense sum_op sum_add (+)
        (LazyPropSegtree_range sum_op (0, 0) [(1, 1), (2, 1), (3, 1), (4, 1), (5, 1)]
           (0, 0) (0::int))
        [CQuery 1 4, CUpdate 1 4 10, CQuery 1 4, CQuery 2 3])
   = Some [(9, 3), (39, 3), (13, 1)]"
  by (simp add: dense_defs sum_op_def sum_add_def)

text \<open>
  C1, at a failing input: minimum as aggregate and assignment as update, which satisfy
  the monoid and compatibility laws, on four elements that start as the identity. After
  \<^verbatim>\<open>Update(0, 4, 5)\<close> and \<^verbatim>\<open>Update(0, 1, 7)\<close> the reference array holds 7 at index 0
  and the sparse tree (inclusive ranges) answers 7, but the dense tree answers
  \<^verbatim>\<open>Query(0, 1)\<close> with 5: the second update wrote 7 into the leaf under the root's
  pending 5, and the query's propagation then pushed the older 5 over it.
\<close>

theorem C1_dense_differs_from_reference:
  "map_option fst
     (run_dense min assignVal assignLazy (LazyPropSegtree_size 4 INT_MAX None)
        [CUpdate 0 4 (Some 5), CUpdate 0 1 (Some 7), CQuery 0 1]) = Some [5]
   \<and> run_ref min assignVal INT_MAX (replicate 4 INT_MAX)
        [CUpdate 0 4 (Some 5), CUpdate 0 1 (Some 7), CQuery 0 1] = [7]
   \<and> map_option fst
     (run_sparse 2 min (spec_updLazy assignVal assignLazy) INT_MAX None
        (new_node 0 3 INT_MAX None)
        [SUpdate 0 3 (Some 5), SUpdate 0 0 (Some 7), SQuery 0 0]) = Some [7]"
  by (simp add: dense_defs sparse_defs INT_MAX_def assignVal_def assignLazy_def
      ref_update_def ref_query_def upt_conv_Cons spec_updLazy_def)

text \<open>
  C3, at a failing input: \<^verbatim>\<open>Update\<close> does not propagate. After \<^verbatim>\<open>Update(0, 4, 5)\<close> the
  root holds the tag 5. \<^verbatim>\<open>Update(0, 1, 7)\<close> walks the path of leaf 0 below the root,
  and when it returns the root still holds the tag 5, node 2 holds no tag and the leaf
  beside leaf 0 still holds the identity: nothing was pushed down.
\<close>

theorem C3_update_keeps_pending_tag:
  "map_option (seg_lazy \<circ> snd)
     (run_dense min assignVal assignLazy (LazyPropSegtree_size 4 INT_MAX None)
        [CUpdate 0 4 (Some 5), CUpdate 0 1 (Some 7)]) = Some [None, Some 5, None, None]
   \<and> map_option (seg_tree \<circ> snd)
     (run_dense min assignVal assignLazy (LazyPropSegtree_size 4 INT_MAX None)
        [CUpdate 0 4 (Some 5), CUpdate 0 1 (Some 7)])
      = Some [INT_MAX, 5, 7, INT_MAX, 7, INT_MAX, INT_MAX, INT_MAX]"
  by code_simp

text \<open>
  C6, at a failing input: the tree of the README, \<open>[2, 5, 3, 4, 1]\<close> with minimum and
  addition. \<^verbatim>\<open>Query(1, 3)\<close> is 3. \<^verbatim>\<open>Update(2, 2, 10)\<close> has an empty range, but
  \<^verbatim>\<open>left = right = 7\<close> is odd and both unguarded \<^verbatim>\<open>if\<close> statements fire: 10 is added to
  the leaves 7 and 6. \<^verbatim>\<open>Query(1, 3)\<close> is 13 afterwards. \<^verbatim>\<open>Query(5, 5)\<close>, with
  \<open>k = N\<close>, reads \<^verbatim>\<open>lazy_[5]\<close> behind the end of the vector. And an empty query
  changes later answers too: on six zeros, after \<^verbatim>\<open>Update(2, 6, 5)\<close>, \<^verbatim>\<open>Query(2, 3)\<close> is
  5; with \<^verbatim>\<open>Query(0, 0)\<close> in between, which returns the identity, it is 0.
  \<^verbatim>\<open>Propagate(right - 1)\<close> takes the internal node 5 for a leaf, pushes the tag of node
  2 into the aggregates of nodes 4 and 5 and not into their tags, and clears it.
\<close>

theorem C6_empty_update_changes_leaves:
  "map_option fst
     (run_dense min (+) (+) (LazyPropSegtree_range min 0 [2, 5, 3, 4, 1] INT_MAX (0::int))
        [CQuery 1 3, CUpdate 2 2 10, CQuery 1 3]) = Some [3, 13]
   \<and> run_dense min (+) (+) (LazyPropSegtree_range min 0 [2, 5, 3, 4, 1] INT_MAX (0::int))
        [CQuery 5 5] = None
   \<and> map_option fst
     (run_dense min (+) (+) (LazyPropSegtree_range min 0 [0, 0, 0, 0, 0, 0] INT_MAX (0::int))
        [CUpdate 2 6 5, CQuery 2 3]) = Some [5]
   \<and> map_option fst
     (run_dense min (+) (+) (LazyPropSegtree_range min 0 [0, 0, 0, 0, 0, 0] INT_MAX (0::int))
        [CUpdate 2 6 5, CQuery 0 0, CQuery 2 3]) = Some [INT_MAX, 0]"
  by (simp add: dense_defs INT_MAX_def)

text \<open>
  C4, at a failing input: minimum as aggregate and assignment as update on the tree
  built from \<open>[9, 9, 9, 9]\<close>. \<^verbatim>\<open>Update(0, 4, 5)\<close> leaves the tag 5 at the root.
  \<^verbatim>\<open>Update(0, 1, 3)\<close> does not propagate it: it writes 3 into leaf 0 under the pending
  5, and \<^verbatim>\<open>recalculate_after_update\<close> then computes the root as
  \<^verbatim>\<open>updVal(op(tree_[2], tree_[3]), lazy_[1])\<close>, the minimum 3 of the children overwritten by
  the older tag 5. The elements are now \<open>[3, 5, 5, 5]\<close> with the minimum 3; the root,
  which has no ancestor whose tag could be pending, stores 5, and \<^verbatim>\<open>Query(0, 4)\<close>
  returns 5.
\<close>

theorem C4_root_misses_update:
  "map_option (seg_tree \<circ> snd)
     (run_dense min assignVal assignLazy
        (LazyPropSegtree_range min 0 [9, 9, 9, 9] INT_MAX None)
        [CUpdate 0 4 (Some 5), CUpdate 0 1 (Some 3)]) = Some [0, 5, 3, 9, 3, 9, 9, 9]
   \<and> map_option (seg_lazy \<circ> snd)
     (run_dense min assignVal assignLazy
        (LazyPropSegtree_range min 0 [9, 9, 9, 9] INT_MAX None)
        [CUpdate 0 4 (Some 5), CUpdate 0 1 (Some 3)]) = Some [None, Some 5, None, None]
   \<and> ref_update assignVal (ref_update assignVal [9, 9, 9, 9] 0 4 (Some 5)) 0 1 (Some 3)
       = [3, 5, 5, 5]
   \<and> ref_query min INT_MAX
        (ref_update assignVal (ref_update assignVal [9, 9, 9, 9] 0 4 (Some 5)) 0 1 (Some 3)) 0 4
       = 3
   \<and> map_option fst
     (run_dense min assignVal assignLazy
        (LazyPropSegtree_range min 0 [9, 9, 9, 9] INT_MAX None)
        [CUpdate 0 4 (Some 5), CUpdate 0 1 (Some 3), CQuery 0 4]) = Some [5]"
  by (simp add: dense_defs INT_MAX_def assignVal_def assignLazy_def
      ref_update_def ref_query_def upt_conv_Cons)

text \<open>
  C5, at a failing input: the example of the sparse tree's README (sum, addition, the
  callback \<^verbatim>\<open>curval += v\<close>). On a fully covered node \<^verbatim>\<open>Update\<close> calls the callback and
  nothing else, so the stored aggregate of the root stays 0 where \<^verbatim>\<open>updVal(0, 1)\<close> is
  1, and the three queries of the example return 0, 0 and 0 where the README and the
  claim expect 9, 39 and 13.
\<close>

theorem C5_update_never_applies_updVal:
  "Update_dyn fuel (+) readme_updLazy 0 0 (new_node 0 4 0 0) 0 4 1 = Some (Node 0 4 2 0 1 None)
   \<and> map_option fst (run_sparse 3 (+) readme_updLazy 0 0 (new_node 0 4 0 0)
       [SUpdate 0 0 1, SUpdate 1 1 2, SUpdate 2 2 3, SUpdate 3 3 4, SUpdate 4 4 5,
        SQuery 1 3, SUpdate 1 3 10, SQuery 1 3, SQuery 2 2]) = Some [0, 0, 0]"
  by (simp add: sparse_defs readme_updLazy_def)

text \<open>
  C7, as the claim states it, fails on its own example: the tree over \<open>[0, 10^9]\<close> with
  minimum and assignment. \<^verbatim>\<open>Update(100, 200, 5)\<close> leaves 71 nodes. \<^verbatim>\<open>Query(0, 50)\<close>
  returns the identity, and leaves 81 nodes: it allocated ten, far below the root's
  children.
\<close>

theorem C7_query_materializes:
  "map_option (node_count \<circ> snd)
     (run_sparse 40 min (spec_updLazy assignVal assignLazy) LLONG_MAX None
        (new_node 0 1000000000 LLONG_MAX None) [SUpdate 100 200 (Some 5)]) = Some 71
   \<and> map_option (map_prod id node_count)
     (run_sparse 40 min (spec_updLazy assignVal assignLazy) LLONG_MAX None
        (new_node 0 1000000000 LLONG_MAX None) [SUpdate 100 200 (Some 5), SQuery 0 50])
       = Some ([LLONG_MAX], 81)"
  by code_simp

text \<open>
  C9, at failing inputs. On \<open>[-1, 0]\<close> the sum is -1 and the truncating division gives
  the midpoint 0, which is \<^verbatim>\<open>end\<close>: \<^verbatim>\<open>Propagate\<close> creates a left child over \<open>[-1, 0]\<close>
  again and a right child over the empty \<open>[1, 0]\<close>. On \<open>[2^62, 2^63 - 1]\<close>, the right
  half of \<open>[0, 2^63 - 1]\<close>, the sum wraps and the midpoint is \<open>-2^61\<close>, below
  \<^verbatim>\<open>start\<close>.
\<close>

theorem C9_middle_outside_range:
  "middle_of (-1) 0 = 0
   \<and> Propagate_dyn updLazy idOp idUpd (new_node (-1) 0 idOp idUpd)
       = Node (-1) 0 0 idOp idUpd (Some (new_node (-1) 0 idOp idUpd, new_node 1 0 idOp idUpd))
   \<and> middle_of (2 ^ 62) (2 ^ 63 - 1) = - (2 ^ 61)"
  by (simp add: sparse_defs)

text \<open>
  C8, at a failing input: on a tree over \<open>[-1, 0]\<close>, \<^verbatim>\<open>Query(-1, -1)\<close> does not return,
  whatever the algebra. However many nested calls are allowed, they do not suffice: the
  left child of every node on the way is a new node over \<open>[-1, 0]\<close>.
\<close>

theorem C8_query_never_returns:
  "Query_dyn fuel op updLazy idOp idUpd (new_node (-1) 0 idOp idUpd) (-1) (-1) = None"
proof (induction fuel)
  case 0
  show ?case by (simp add: sparse_defs)
next
  case (Suc f)
  have n: "new_node (-1) 0 idOp idUpd = Node (-1) 0 0 idOp idUpd None"
    by (simp add: sparse_defs)
  show ?case
    using Suc by (simp add: Query_dyn.simps[of "Suc f"] n)
qed

section \<open>The sparse tree on a non-negative domain\<close>

lemma middle_of_nonneg:
  assumes "0 \<le> s" "s \<le> e" "e < 2 ^ 62"
  shows "middle_of s e = (s + e) div 2"
proof -
  have "0 \<le> s + e" "s + e < 2 ^ 63" using assms by simp_all
  then have w: "wrap64 (s + e) = s + e"
    by (simp add: wrap64_def)
  show ?thesis using \<open>0 \<le> s + e\<close>
    by (simp add: middle_of_def w cdiv_def sgn_if)
qed

lemma wrap64_id: "- (2 ^ 63) \<le> x \<Longrightarrow> x < 2 ^ 63 \<Longrightarrow> wrap64 x = x"
  by (simp add: wrap64_def)

lemma node_ok_mono:
  "node_ok idOp idUpd U s e m v lz \<Longrightarrow> U \<subseteq> U' \<Longrightarrow> node_ok idOp idUpd U' s e m v lz"
  unfolding node_ok_def by blast

lemma node_ok_covered:
  "node_ok idOp idUpd U s e m v lz \<Longrightarrow> {s..e} \<subseteq> U \<Longrightarrow> node_ok idOp idUpd U s e m v' lz'"
proof -
  assume a: "node_ok idOp idUpd U s e m v lz" "{s..e} \<subseteq> U"
  then have "s \<le> e" by (simp add: node_ok_def)
  then have "s \<in> {s..e}" by simp
  with a(2) have "{s..e} \<inter> U \<noteq> {}" by blast
  with a show ?thesis by (simp add: node_ok_def)
qed

lemma node_ok_clear:
  "node_ok idOp idUpd U s e m v lz \<Longrightarrow> node_ok idOp idUpd U s e m v idUpd"
  by (simp add: node_ok_def)

lemma tree_inv_mono:
  "tree_inv idOp idUpd U n \<Longrightarrow> U \<subseteq> U' \<Longrightarrow> tree_inv idOp idUpd U' n"
proof (induction idOp idUpd U n rule: tree_inv.induct)
  case (1 idOp idUpd U s e m v lz k)
  from "1.prems"(1) have "node_ok idOp idUpd U s e m v lz" by simp
  then have ok: "node_ok idOp idUpd U' s e m v lz"
    using "1.prems"(2) by (rule node_ok_mono)
  show ?case
  proof (cases k)
    case None
    with ok show ?thesis by simp
  next
    case (Some c)
    obtain l r where c: "c = (l, r)" by (cases c)
    from "1.prems" Some c have "tree_inv idOp idUpd U l" "tree_inv idOp idUpd U r" by simp_all
    with "1.IH" Some c "1.prems"(2)
    have "tree_inv idOp idUpd U' l" "tree_inv idOp idUpd U' r" by simp_all
    with "1.prems"(1) Some c ok show ?thesis by simp
  qed
qed

lemma tree_inv_fresh:
  "0 \<le> s \<Longrightarrow> s \<le> e \<Longrightarrow> e < 2 ^ 62 \<Longrightarrow> tree_inv idOp idUpd U (new_node s e idOp idUpd)"
  by (simp add: new_node_def middle_of_nonneg node_ok_def)

lemma tree_inv_call:
  "tree_inv idOp idUpd U n \<Longrightarrow> {node_start n..node_end n} \<subseteq> U \<Longrightarrow>
   tree_inv idOp idUpd U (call_updLazy f u n)"
  by (cases n) (auto split: prod.splits intro: node_ok_covered)

lemma call_range [simp]:
  "node_start (call_updLazy f u n) = node_start n"
  "node_end (call_updLazy f u n) = node_end n"
  by (cases n; simp split: prod.splits)+

lemma Propagate_dyn_children: "node_children (Propagate_dyn f idOp idUpd n) \<noteq> None"
  by (cases n) (simp split: option.splits prod.splits)

lemma Propagate_range [simp]:
  "node_start (Propagate_dyn f idOp idUpd n) = node_start n"
  "node_end (Propagate_dyn f idOp idUpd n) = node_end n"
  "node_value (Propagate_dyn f idOp idUpd n) = node_value n"
  by (cases n; simp split: option.splits prod.splits)+

lemma tree_inv_bounds:
  "tree_inv idOp idUpd U n \<Longrightarrow> 0 \<le> node_start n \<and> node_start n \<le> node_end n \<and> node_end n < 2 ^ 62
     \<and> node_middle n = (node_start n + node_end n) div 2"
  by (cases n) (simp add: node_ok_def)

text \<open>What Propagate leaves: the node with children l and r.\<close>

lemma Propagate_inv:
  assumes "tree_inv idOp idUpd U n" "node_start n < node_end n"
  shows "\<exists>lz' l r. Propagate_dyn f idOp idUpd n =
            Node (node_start n) (node_end n) (node_middle n) (node_value n) lz' (Some (l, r))
          \<and> (node_lazy n = idUpd \<longrightarrow> lz' = idUpd)
          \<and> node_ok idOp idUpd U (node_start n) (node_end n) (node_middle n) (node_value n) lz'
          \<and> node_start l = node_start n \<and> node_end l = node_middle n
          \<and> node_start r = node_middle n + 1 \<and> node_end r = node_end n
          \<and> tree_inv idOp idUpd U l \<and> tree_inv idOp idUpd U r"
proof -
  obtain s e m v lz k where n: "n = Node s e m v lz k" by (cases n)
  from assms n have ok: "node_ok idOp idUpd U s e m v lz" by simp
  from ok assms(2) n have b: "0 \<le> s" "s < e" "e < 2 ^ 62" "m = (s + e) div 2"
    by (simp_all add: node_ok_def)
  then have m: "s \<le> m" "m < e" by auto
  have w: "wrap64 (m + 1) = m + 1" using b m by (intro wrap64_id) auto
  define l where "l = (case k of None \<Rightarrow> new_node s m idOp idUpd | Some c \<Rightarrow> fst c)"
  define r where "r = (case k of None \<Rightarrow> new_node (m + 1) e idOp idUpd | Some c \<Rightarrow> snd c)"
  have fl: "tree_inv idOp idUpd U (new_node s m idOp idUpd)"
    using b m by (intro tree_inv_fresh) auto
  have fr: "tree_inv idOp idUpd U (new_node (m + 1) e idOp idUpd)"
    using b m by (intro tree_inv_fresh) auto
  have kl: "tree_inv idOp idUpd U l \<and> node_start l = s \<and> node_end l = m"
    using assms(1) n fl unfolding l_def by (cases k) (auto simp: new_node_def)
  have kr: "tree_inv idOp idUpd U r \<and> node_start r = m + 1 \<and> node_end r = e"
    using assms(1) n fr unfolding r_def by (cases k) (auto simp: new_node_def)
  have P: "Propagate_dyn f idOp idUpd n =
      (if lz = idUpd then Node s e m v lz (Some (l, r))
       else Node s e m v idUpd (Some (call_updLazy f lz l, call_updLazy f lz r)))"
    unfolding n l_def r_def by (cases k) (simp_all add: w split: prod.splits)
  show ?thesis
  proof (cases "lz = idUpd")
    case True
    with P kl kr ok n show ?thesis by simp
  next
    case False
    with ok have sub: "{s..e} \<subseteq> U" by (simp add: node_ok_def)
    have "{node_start l..node_end l} \<subseteq> U" "{node_start r..node_end r} \<subseteq> U"
      using sub kl kr m by auto
    then have c: "tree_inv idOp idUpd U (call_updLazy f lz l)"
      "tree_inv idOp idUpd U (call_updLazy f lz r)"
      using kl kr by (simp_all add: tree_inv_call)
    from P False have "Propagate_dyn f idOp idUpd n =
        Node s e m v idUpd (Some (call_updLazy f lz l, call_updLazy f lz r))" by simp
    with c kl kr node_ok_clear[OF ok] n show ?thesis by simp
  qed
qed


lemma half_size:
  fixes s e :: int
  assumes "s < e" "e - s < 2 ^ Suc f"
  shows "(s + e) div 2 - s < 2 ^ f" "e - ((s + e) div 2 + 1) < 2 ^ f"
  using assms by auto

lemma Query_dyn_disjoint:
  "r < node_start n \<or> node_end n < l \<Longrightarrow> Query_dyn f op updLazy idOp idUpd n l r = Some (idOp, n)"
  by (simp add: Query_dyn.simps)

lemma Query_dyn_covered:
  "\<not> (r < node_start n \<or> node_end n < l) \<Longrightarrow> l \<le> node_start n \<and> node_end n \<le> r \<Longrightarrow>
   Query_dyn f op updLazy idOp idUpd n l r = Some (node_value n, n)"
  by (simp add: Query_dyn.simps)

lemma Query_dyn_partial:
  "\<not> (r < node_start n \<or> node_end n < l) \<Longrightarrow> \<not> (l \<le> node_start n \<and> node_end n \<le> r) \<Longrightarrow>
   Propagate_dyn updLazy idOp idUpd n = Node s e m v lz (Some (cl, cr)) \<Longrightarrow>
   Query_dyn f op updLazy idOp idUpd cl l r = Some (a, cl') \<Longrightarrow>
   Query_dyn f op updLazy idOp idUpd cr l r = Some (b, cr') \<Longrightarrow>
   Query_dyn (Suc f) op updLazy idOp idUpd n l r = Some (op a b, Node s e m v lz (Some (cl', cr')))"
  by (auto simp add: Query_dyn.simps[of "Suc f"])

lemma Update_dyn_disjoint:
  "r < node_start n \<or> node_end n < l \<Longrightarrow> Update_dyn f op updLazy idOp idUpd n l r u = Some n"
  by (simp add: Update_dyn.simps)

lemma Update_dyn_covered:
  "\<not> (r < node_start n \<or> node_end n < l) \<Longrightarrow> l \<le> node_start n \<and> node_end n \<le> r \<Longrightarrow>
   Update_dyn f op updLazy idOp idUpd n l r u = Some (call_updLazy updLazy u n)"
  by (simp add: Update_dyn.simps)

lemma Update_dyn_partial:
  "\<not> (r < node_start n \<or> node_end n < l) \<Longrightarrow> \<not> (l \<le> node_start n \<and> node_end n \<le> r) \<Longrightarrow>
   Propagate_dyn updLazy idOp idUpd n = Node s e m v lz (Some (cl, cr)) \<Longrightarrow>
   Update_dyn f op updLazy idOp idUpd cl l r u = Some cl' \<Longrightarrow>
   Update_dyn f op updLazy idOp idUpd cr l r u = Some cr' \<Longrightarrow>
   Update_dyn (Suc f) op updLazy idOp idUpd n l r u =
     Some (Node s e m (op (node_value cl') (node_value cr')) lz (Some (cl', cr')))"
  by (auto simp add: Update_dyn.simps[of "Suc f"])

lemma tree_inv_node_ok:
  "tree_inv idOp idUpd U n \<Longrightarrow>
   node_ok idOp idUpd U (node_start n) (node_end n) (node_middle n) (node_value n) (node_lazy n)"
  by (cases n) simp

lemma covered_value:
  assumes "tree_inv idOp idUpd U n" "l \<le> node_start n \<and> node_end n \<le> r" "U \<inter> {l..r} = {}"
  shows "node_value n = idOp"
proof (rule ccontr)
  assume "node_value n \<noteq> idOp"
  with tree_inv_node_ok[OF assms(1)] have "{node_start n..node_end n} \<inter> U \<noteq> {}"
    by (simp add: node_ok_def)
  with assms(2,3) show False by auto
qed

lemma single_not_partial:
  fixes s e l r :: int
  shows "s = e \<Longrightarrow> \<not> (r < s \<or> e < l) \<Longrightarrow> l \<le> s \<and> e \<le> r"
  by auto

lemma Query_dyn_inv:
  "tree_inv idOp idUpd U n \<Longrightarrow> node_end n - node_start n < 2 ^ f \<Longrightarrow>
   \<exists>x n'. Query_dyn f op updLazy idOp idUpd n l r = Some (x, n')
      \<and> tree_inv idOp idUpd U n' \<and> node_start n' = node_start n \<and> node_end n' = node_end n
      \<and> (l \<le> r \<and> U \<inter> {l..r} = {} \<and> op idOp idOp = idOp \<longrightarrow> x = idOp)"
proof (induction f arbitrary: n)
  case 0
  from tree_inv_bounds[OF 0(1)] 0(2) have se: "node_start n = node_end n" by simp
  show ?case
  proof (cases "r < node_start n \<or> node_end n < l")
    case True
    from Query_dyn_disjoint[OF True] 0(1) show ?thesis by simp
  next
    case False
    from single_not_partial[OF se False] have c: "l \<le> node_start n \<and> node_end n \<le> r" .
    from Query_dyn_covered[OF False c] 0(1) covered_value[OF 0(1) c] show ?thesis by simp
  qed
next
  case (Suc f)
  show ?case
  proof (cases "r < node_start n \<or> node_end n < l")
    case True
    from Query_dyn_disjoint[OF True] Suc.prems(1) show ?thesis by simp
  next
    case nd: False
    show ?thesis
    proof (cases "l \<le> node_start n \<and> node_end n \<le> r")
      case True
      from Query_dyn_covered[OF nd True] Suc.prems(1) covered_value[OF Suc.prems(1) True]
      show ?thesis by simp
    next
      case nc: False
      define s e m v where "s = node_start n" and "e = node_end n" and "m = node_middle n"
        and "v = node_value n"
      from tree_inv_bounds[OF Suc.prems(1)] have b: "s \<le> e" "m = (s + e) div 2"
        by (simp_all add: s_def e_def m_def)
      from single_not_partial[of s e r l] nd nc b(1) have lt: "s < e"
        unfolding s_def e_def by fastforce
      from Propagate_inv[OF Suc.prems(1), of updLazy] lt
      obtain lz' cl cr where P: "Propagate_dyn updLazy idOp idUpd n = Node s e m v lz' (Some (cl, cr))"
        and ok': "node_ok idOp idUpd U s e m v lz'"
        and rl: "node_start cl = s" "node_end cl = m"
        and rr: "node_start cr = m + 1" "node_end cr = e"
        and il: "tree_inv idOp idUpd U cl" and ir: "tree_inv idOp idUpd U cr"
        unfolding s_def e_def m_def v_def by auto
      from Suc.prems(2) have sz: "e - s < 2 ^ Suc f" by (simp add: s_def e_def)
      have szl: "node_end cl - node_start cl < 2 ^ f"
        using half_size(1)[OF lt sz] rl b by simp
      have szr: "node_end cr - node_start cr < 2 ^ f"
        using half_size(2)[OF lt sz] rr b by simp
      from Suc.IH[OF il szl] obtain a cl' where
        ql: "Query_dyn f op updLazy idOp idUpd cl l r = Some (a, cl')"
        and il': "tree_inv idOp idUpd U cl'"
        and rl': "node_start cl' = node_start cl" "node_end cl' = node_end cl"
        and al: "l \<le> r \<and> U \<inter> {l..r} = {} \<and> op idOp idOp = idOp \<longrightarrow> a = idOp"
        by blast
      from Suc.IH[OF ir szr] obtain b cr' where
        qr: "Query_dyn f op updLazy idOp idUpd cr l r = Some (b, cr')"
        and ir': "tree_inv idOp idUpd U cr'"
        and rr': "node_start cr' = node_start cr" "node_end cr' = node_end cr"
        and ar: "l \<le> r \<and> U \<inter> {l..r} = {} \<and> op idOp idOp = idOp \<longrightarrow> b = idOp"
        by blast
      note Q = Query_dyn_partial[OF nd nc P ql qr]
      have T: "tree_inv idOp idUpd U (Node s e m v lz' (Some (cl', cr')))"
        using ok' il' ir' rl rr rl' rr' by simp
      have "l \<le> r \<and> U \<inter> {l..r} = {} \<and> op idOp idOp = idOp \<longrightarrow> op a b = idOp"
        using al ar by auto
      with Q T show ?thesis by (simp add: s_def e_def)
    qed
  qed
qed

lemma Update_dyn_inv:
  "tree_inv idOp idUpd U n \<Longrightarrow> node_end n - node_start n < 2 ^ f \<Longrightarrow> a \<le> b \<Longrightarrow>
   \<exists>n'. Update_dyn f op updLazy idOp idUpd n a b u = Some n'
      \<and> tree_inv idOp idUpd (U \<union> {a..b}) n'
      \<and> node_start n' = node_start n \<and> node_end n' = node_end n"
proof (induction f arbitrary: n)
  case 0
  from tree_inv_bounds[OF 0(1)] 0(2) have se: "node_start n = node_end n" by simp
  have i': "tree_inv idOp idUpd (U \<union> {a..b}) n"
    using 0(1) by (rule tree_inv_mono) simp
  show ?case
  proof (cases "b < node_start n \<or> node_end n < a")
    case True
    from Update_dyn_disjoint[OF True] i' show ?thesis by simp
  next
    case False
    from single_not_partial[OF se False] have c: "a \<le> node_start n \<and> node_end n \<le> b" .
    then have "{node_start n..node_end n} \<subseteq> U \<union> {a..b}" by auto
    from Update_dyn_covered[OF False c] tree_inv_call[OF i' this] show ?thesis by simp
  qed
next
  case (Suc f)
  have i': "tree_inv idOp idUpd (U \<union> {a..b}) n"
    using Suc.prems(1) by (rule tree_inv_mono) simp
  show ?case
  proof (cases "b < node_start n \<or> node_end n < a")
    case True
    from Update_dyn_disjoint[OF True] i' show ?thesis by simp
  next
    case nd: False
    show ?thesis
    proof (cases "a \<le> node_start n \<and> node_end n \<le> b")
      case True
      then have "{node_start n..node_end n} \<subseteq> U \<union> {a..b}" by auto
      from Update_dyn_covered[OF nd True] tree_inv_call[OF i' this] show ?thesis by simp
    next
      case nc: False
      define s e m v where "s = node_start n" and "e = node_end n" and "m = node_middle n"
        and "v = node_value n"
      from tree_inv_bounds[OF Suc.prems(1)] have bd: "s \<le> e" "m = (s + e) div 2"
        by (simp_all add: s_def e_def m_def)
      from single_not_partial[of s e b a] nd nc bd(1) have lt: "s < e"
        unfolding s_def e_def by fastforce
      from Propagate_inv[OF Suc.prems(1), of updLazy] lt
      obtain lz' cl cr where P: "Propagate_dyn updLazy idOp idUpd n = Node s e m v lz' (Some (cl, cr))"
        and ok': "node_ok idOp idUpd U s e m v lz'"
        and rl: "node_start cl = s" "node_end cl = m"
        and rr: "node_start cr = m + 1" "node_end cr = e"
        and il: "tree_inv idOp idUpd U cl" and ir: "tree_inv idOp idUpd U cr"
        unfolding s_def e_def m_def v_def by auto
      from Suc.prems(2) have sz: "e - s < 2 ^ Suc f" by (simp add: s_def e_def)
      have szl: "node_end cl - node_start cl < 2 ^ f"
        using half_size(1)[OF lt sz] rl bd by simp
      have szr: "node_end cr - node_start cr < 2 ^ f"
        using half_size(2)[OF lt sz] rr bd by simp
      from Suc.IH[OF il szl Suc.prems(3)] obtain cl' where
        ul: "Update_dyn f op updLazy idOp idUpd cl a b u = Some cl'"
        and il': "tree_inv idOp idUpd (U \<union> {a..b}) cl'"
        and rl': "node_start cl' = node_start cl" "node_end cl' = node_end cl"
        by blast
      from Suc.IH[OF ir szr Suc.prems(3)] obtain cr' where
        ur: "Update_dyn f op updLazy idOp idUpd cr a b u = Some cr'"
        and ir': "tree_inv idOp idUpd (U \<union> {a..b}) cr'"
        and rr': "node_start cr' = node_start cr" "node_end cr' = node_end cr"
        by blast
      note Q = Update_dyn_partial[OF nd nc P ul ur]
      from nd Suc.prems(3) bd(1) have "max a s \<in> {s..e} \<inter> (U \<union> {a..b})"
        unfolding s_def e_def by auto
      then have ne: "{s..e} \<inter> (U \<union> {a..b}) \<noteq> {}" by blast
      have "node_ok idOp idUpd (U \<union> {a..b}) s e m (op (node_value cl') (node_value cr')) lz'"
        using ok' ne unfolding node_ok_def by blast
      then have "tree_inv idOp idUpd (U \<union> {a..b})
          (Node s e m (op (node_value cl') (node_value cr')) lz' (Some (cl', cr')))"
        using il' ir' rl rr rl' rr' by simp
      with Q show ?thesis by (simp add: s_def e_def)
    qed
  qed
qed

lemma run_sparse_inv:
  "tree_inv idOp idUpd U n \<Longrightarrow> node_end n - node_start n < 2 ^ f \<Longrightarrow>
   calls_within (node_start n) (node_end n) cs \<Longrightarrow>
   \<exists>xs n'. run_sparse f op updLazy idOp idUpd n cs = Some (xs, n')
      \<and> tree_inv idOp idUpd (U \<union> updated cs) n'
      \<and> node_start n' = node_start n \<and> node_end n' = node_end n"
proof (induction cs arbitrary: n U)
  case Nil
  then show ?case by simp
next
  case (Cons c cs)
  show ?case
  proof (cases c)
    case (SQuery l r)
    from Query_dyn_inv[OF Cons.prems(1,2), of op updLazy l r] obtain x n1 where
      q: "Query_dyn f op updLazy idOp idUpd n l r = Some (x, n1)"
      and i1: "tree_inv idOp idUpd U n1"
      and r1: "node_start n1 = node_start n" "node_end n1 = node_end n"
      by blast
    from Cons.prems SQuery r1 have "node_end n1 - node_start n1 < 2 ^ f"
      "calls_within (node_start n1) (node_end n1) cs" by simp_all
    from Cons.IH[OF i1 this] obtain xs n' where
      "run_sparse f op updLazy idOp idUpd n1 cs = Some (xs, n')"
      "tree_inv idOp idUpd (U \<union> updated cs) n'"
      "node_start n' = node_start n1" "node_end n' = node_end n1" by blast
    with q r1 SQuery show ?thesis by simp
  next
    case (SUpdate l r u)
    with Cons.prems(3) have lr: "l \<le> r" by simp
    from Update_dyn_inv[OF Cons.prems(1,2) lr, of op updLazy u] obtain n1 where
      q: "Update_dyn f op updLazy idOp idUpd n l r u = Some n1"
      and i1: "tree_inv idOp idUpd (U \<union> {l..r}) n1"
      and r1: "node_start n1 = node_start n" "node_end n1 = node_end n"
      by blast
    from Cons.prems SUpdate r1 have "node_end n1 - node_start n1 < 2 ^ f"
      "calls_within (node_start n1) (node_end n1) cs" by simp_all
    from Cons.IH[OF i1 this] obtain xs n' where
      "run_sparse f op updLazy idOp idUpd n1 cs = Some (xs, n')"
      "tree_inv idOp idUpd (U \<union> {l..r} \<union> updated cs) n'"
      "node_start n' = node_start n1" "node_end n' = node_end n1" by blast
    with q r1 SUpdate show ?thesis by (simp add: Un_assoc)
  qed
qed

text \<open>
  C7, amended: on a sparse tree over a domain \<open>0 \<le> start \<le> end < 2^62\<close>, after any
  calls with ranges in the domain, a query over a range in the domain that meets the
  range of no earlier update returns \<^verbatim>\<open>idOp\<close>, provided \<open>op idOp idOp = idOp\<close>, whatever
  the callback does; the nested calls it needs are at most the binary logarithm of the
  size of the domain. It does allocate nodes: \<^verbatim>\<open>Propagate\<close> gives two children to
  every partially overlapped node that has none (\<open>C7_query_materializes\<close>).
\<close>

theorem C7_disjoint_query_returns_identity:
  assumes "0 \<le> s" "s \<le> e" "e < 2 ^ 62" "e - s < 2 ^ fuel"
    and "op idOp idOp = idOp"
    and "calls_within s e cs"
    and "s \<le> l" "l \<le> r" "r \<le> e"
    and "updated cs \<inter> {l..r} = {}"
  shows "\<exists>xs t t'. run_sparse fuel op updLazy idOp idUpd (new_node s e idOp idUpd) cs = Some (xs, t)
           \<and> Query_dyn fuel op updLazy idOp idUpd t l r = Some (idOp, t')"
proof -
  have i0: "tree_inv idOp idUpd {} (new_node s e idOp idUpd)"
    using assms(1-3) by (rule tree_inv_fresh)
  have r0: "node_start (new_node s e idOp idUpd) = s" "node_end (new_node s e idOp idUpd) = e"
    by (simp_all add: new_node_def)
  from run_sparse_inv[OF i0, of fuel cs op updLazy] assms(4,6) r0 obtain xs t where
    run: "run_sparse fuel op updLazy idOp idUpd (new_node s e idOp idUpd) cs = Some (xs, t)"
    and it: "tree_inv idOp idUpd (updated cs) t"
    and rt: "node_start t = s" "node_end t = e"
    by auto
  from rt assms(4) have "node_end t - node_start t < 2 ^ fuel" by simp
  from Query_dyn_inv[OF it this, of op updLazy l r] assms(5,8,10) obtain x t' where
    "Query_dyn fuel op updLazy idOp idUpd t l r = Some (x, t')" "x = idOp"
    by blast
  with run show ?thesis by blast
qed

text \<open>
  The instance of the claim: the tree over \<open>[0, 10^9]\<close> after \<^verbatim>\<open>Update(100, 200, 5)\<close>
  answers \<^verbatim>\<open>Query(0, 50)\<close> with the identity.
\<close>

theorem C7_witness:
  "\<exists>xs t t'. run_sparse 30 min (spec_updLazy assignVal assignLazy) LLONG_MAX None
               (new_node 0 1000000000 LLONG_MAX None) [SUpdate 100 200 (Some 5)] = Some (xs, t)
           \<and> Query_dyn 30 min (spec_updLazy assignVal assignLazy) LLONG_MAX None t 0 50
               = Some (LLONG_MAX, t')"
  using C7_disjoint_query_returns_identity[of 0 1000000000 30 min LLONG_MAX
      "[SUpdate 100 200 (Some 5)]" 0 50 "spec_updLazy assignVal assignLazy" None]
  by simp


section \<open>The dense tree: what every call preserves\<close>

lemma tree_at_Some [simp]:
  "tree_at s i = Some x \<longleftrightarrow> i < length (seg_tree s) \<and> x = seg_tree s ! i"
  by (auto simp: tree_at_def)

lemma lazy_at_Some [simp]:
  "lazy_at s i = Some x \<longleftrightarrow> i < length (seg_lazy s) \<and> x = seg_lazy s ! i"
  by (auto simp: lazy_at_def)

lemma tree_at_None [simp]: "tree_at s i = None \<longleftrightarrow> \<not> i < length (seg_tree s)"
  by (simp add: tree_at_def)

lemma lazy_at_None [simp]: "lazy_at s i = None \<longleftrightarrow> \<not> i < length (seg_lazy s)"
  by (simp add: lazy_at_def)

lemma tree_set_Some [simp]:
  "tree_set s i v = Some s' \<longleftrightarrow>
     i < length (seg_tree s) \<and> s' = s\<lparr>seg_tree := (seg_tree s)[i := v]\<rparr>"
  by (auto simp: tree_set_def)

lemma lazy_set_Some [simp]:
  "lazy_set s i v = Some s' \<longleftrightarrow>
     i < length (seg_lazy s) \<and> s' = s\<lparr>seg_lazy := (seg_lazy s)[i := v]\<rparr>"
  by (auto simp: lazy_set_def)

lemma tree_upd_Some [simp]:
  "tree_upd f i v s = Some s' \<longleftrightarrow>
     i < length (seg_tree s) \<and> s' = s\<lparr>seg_tree := (seg_tree s)[i := f (seg_tree s ! i) v]\<rparr>"
  by (auto simp: tree_upd_def bind_eq_Some_conv)

lemma lazy_upd_Some [simp]:
  "lazy_upd g i v s = Some s' \<longleftrightarrow>
     i < length (seg_lazy s) \<and> s' = s\<lparr>seg_lazy := (seg_lazy s)[i := g (seg_lazy s ! i) v]\<rparr>"
  by (auto simp: lazy_upd_def bind_eq_Some_conv)

lemma push_inner_id:
  "i < length (seg_lazy s) \<Longrightarrow> seg_lazy s ! i = seg_identityUpdate s \<Longrightarrow>
   push_inner f g i s = Some s"
  by (simp add: push_inner_def lazy_at_def)

lemma push_inner_oob: "\<not> i < length (seg_lazy s) \<Longrightarrow> push_inner f g i s = None"
  by (simp add: push_inner_def lazy_at_def)

lemma push_inner_Some:
  assumes "1 \<le> i" "seg_lazy s ! i \<noteq> seg_identityUpdate s"
  shows "push_inner f g i s = Some s' \<longleftrightarrow>
     2 * i + 1 < length (seg_tree s) \<and> 2 * i + 1 < length (seg_lazy s) \<and>
     s' = s\<lparr>seg_tree := (seg_tree s)[2 * i := f (seg_tree s ! (2 * i)) (seg_lazy s ! i),
                                       2 * i + 1 := f (seg_tree s ! (2 * i + 1)) (seg_lazy s ! i)],
            seg_lazy := (seg_lazy s)[2 * i := g (seg_lazy s ! (2 * i)) (seg_lazy s ! i),
                                       2 * i + 1 := g (seg_lazy s ! (2 * i + 1)) (seg_lazy s ! i),
                                       i := seg_identityUpdate s]\<rparr>"
  using assms
  by (auto simp: push_inner_def bind_eq_Some_conv nth_list_update)

lemma push_last_id:
  "i < length (seg_lazy s) \<Longrightarrow> seg_lazy s ! i = seg_identityUpdate s \<Longrightarrow>
   push_last f i s = Some s"
  by (simp add: push_last_def lazy_at_def)

lemma push_last_oob: "\<not> i < length (seg_lazy s) \<Longrightarrow> push_last f i s = None"
  by (simp add: push_last_def lazy_at_def)

lemma push_last_Some:
  assumes "seg_lazy s ! i \<noteq> seg_identityUpdate s"
  shows "push_last f i s = Some s' \<longleftrightarrow>
     i < length (seg_lazy s) \<and> 2 * i + 1 < length (seg_tree s) \<and>
     s' = s\<lparr>seg_tree := (seg_tree s)[2 * i := f (seg_tree s ! (2 * i)) (seg_lazy s ! i),
                                       2 * i + 1 := f (seg_tree s ! (2 * i + 1)) (seg_lazy s ! i)],
            seg_lazy := (seg_lazy s)[i := seg_identityUpdate s]\<rparr>"
  using assms
  by (auto simp: push_last_def bind_eq_Some_conv nth_list_update)

lemma recalc_step_Some:
  "recalc_step op f pos s = Some s' \<longleftrightarrow>
     2 * pos + 1 < length (seg_tree s) \<and> pos < length (seg_lazy s) \<and>
     s' = s\<lparr>seg_tree := (seg_tree s)[pos :=
             f (op (seg_tree s ! (2 * pos)) (seg_tree s ! (2 * pos + 1))) (seg_lazy s ! pos)]\<rparr>"
  by (auto simp: recalc_step_def bind_eq_Some_conv)

lemma touch_Some:
  "touch f g i v s = Some s' \<longleftrightarrow>
     i < length (seg_tree s) \<and> i < length (seg_lazy s) \<and>
     s' = s\<lparr>seg_tree := (seg_tree s)[i := f (seg_tree s ! i) v],
            seg_lazy := (seg_lazy s)[i := g (seg_lazy s ! i) v]\<rparr>"
  by (auto simp: touch_def bind_eq_Some_conv)

lemma frame_refl [simp]: "frame s s"
  by (simp add: frame_def)

lemma frame_trans: "frame s s1 \<Longrightarrow> frame s1 s2 \<Longrightarrow> frame s s2"
  by (simp add: frame_def)

lemma tree_upd_frame: "tree_upd f i v s = Some s' \<Longrightarrow> frame s s'"
  by (auto simp: frame_def)

lemma touch_frame: "touch f g i v s = Some s' \<Longrightarrow> frame s s'"
  by (auto simp: frame_def touch_Some)

lemma recalc_step_frame: "recalc_step op f pos s = Some s' \<Longrightarrow> frame s s'"
  by (auto simp: frame_def recalc_step_Some)

lemma push_inner_frame: "push_inner f g i s = Some s' \<Longrightarrow> frame s s'"
  by (auto simp: push_inner_def frame_def bind_eq_Some_conv split: if_splits)

lemma push_last_frame: "push_last f i s = Some s' \<Longrightarrow> frame s s'"
  by (auto simp: push_last_def frame_def bind_eq_Some_conv split: if_splits)

lemma Propagate_loop_frame:
  "Propagate_loop f g k pos s = Some s' \<Longrightarrow> frame s s'"
proof (induction f g k pos s rule: Propagate_loop.induct)
  case (1 f g k pos s)
  show ?case
  proof (cases "1 < k")
    case False
    with "1.prems" show ?thesis by (simp add: Propagate_loop.simps[of f g k])
  next
    case True
    with "1.prems" obtain s1 where
      a: "push_inner f g (pos div 2 ^ k) s = Some s1"
      and b: "Propagate_loop f g (k - 1) pos s1 = Some s'"
      by (auto simp: Propagate_loop.simps[of f g k] split: option.splits)
    from "1.IH"[OF True a b] push_inner_frame[OF a] show ?thesis
      by (rule frame_trans[rotated])
  qed
qed

lemma Propagate_frame: "Propagate f g pos s = Some s' \<Longrightarrow> frame s s'"
  by (auto simp: Propagate_def bind_eq_Some_conv
      dest!: Propagate_loop_frame push_last_frame intro: frame_trans)

lemma recalculate_loop_frame:
  "recalculate_loop op f pos s = Some s' \<Longrightarrow> frame s s'"
proof (induction op f pos s rule: recalculate_loop.induct)
  case (1 op f pos s)
  show ?case
  proof (cases "0 < pos")
    case False
    with "1.prems" show ?thesis by (simp add: recalculate_loop.simps[of op f pos])
  next
    case True
    with "1.prems" obtain s1 where
      a: "recalc_step op f pos s = Some s1"
      and b: "recalculate_loop op f (pos div 2) s1 = Some s'"
      by (auto simp: recalculate_loop.simps[of op f pos] split: option.splits)
    from "1.IH"[OF True a b] recalc_step_frame[OF a] show ?thesis
      by (rule frame_trans[rotated])
  qed
qed

lemma good_pos: "good N i \<Longrightarrow> 1 \<le> N \<Longrightarrow> 1 \<le> i"
  by (cases i) (auto simp: good_def)

lemma good_child:
  assumes "good N i" "2 * i < N"
  shows "good N (2 * i)" "good N (2 * i + 1)"
proof -
  from assms(1) obtain h where h: "1 \<le> h" "N \<le> i * 2 ^ h" "(i + 1) * 2 ^ h \<le> 2 * N"
    by (auto simp: good_def)
  have "h \<noteq> 1" using h(2) assms(2) by auto
  with h(1) obtain k where k: "h = Suc k" "1 \<le> k" by (cases h) auto
  have a: "N \<le> (2 * i) * 2 ^ k" using h(2) k by simp
  have b: "(2 * i + 2) * 2 ^ k \<le> 2 * N" using h(3) k by (simp add: algebra_simps)
  have c: "(2 * i + 1) * 2 ^ k \<le> (2 * i + 2) * 2 ^ k" by simp
  have d: "(2 * i) * 2 ^ k \<le> (2 * i + 1) * 2 ^ k" by simp
  show "good N (2 * i)" unfolding good_def using k(2) a b c
    by (intro exI[of _ k]) simp
  show "good N (2 * i + 1)" unfolding good_def using k(2) a b d
    by (intro exI[of _ k]) simp
qed

lemma tags_ok_tree:
  "tags_ok N s \<Longrightarrow> length t = length (seg_tree s) \<Longrightarrow> tags_ok N (s\<lparr>seg_tree := t\<rparr>)"
  by (simp add: tags_ok_def)

lemma nth_upd_cases:
  "(xs[i := x]) ! j = xs ! j \<or> (j = i \<and> i < length xs \<and> (xs[i := x]) ! j = x)"
  by (cases "i = j"; cases "i < length xs"; simp add: list_update_beyond)

lemma tags_ok_lazy_good:
  assumes "tags_ok N s" "good N i"
  shows "tags_ok N (s\<lparr>seg_lazy := (seg_lazy s)[i := x]\<rparr>)"
proof -
  have "good N j" if "j < N" "(seg_lazy s)[i := x] ! j \<noteq> seg_identityUpdate s" for j
    using nth_upd_cases[of "seg_lazy s" i x j] that assms by (auto simp: tags_ok_def)
  with assms(1) show ?thesis by (simp add: tags_ok_def)
qed

lemma tags_ok_lazy_id:
  assumes "tags_ok N s"
  shows "tags_ok N (s\<lparr>seg_lazy := (seg_lazy s)[i := seg_identityUpdate s]\<rparr>)"
proof -
  have "good N j" if "j < N" "(seg_lazy s)[i := seg_identityUpdate s] ! j \<noteq> seg_identityUpdate s" for j
    using nth_upd_cases[of "seg_lazy s" i "seg_identityUpdate s" j] that assms by (auto simp: tags_ok_def)
  with assms(1) show ?thesis by (simp add: tags_ok_def)
qed

lemma tags_ok_id0: "tags_ok N s \<Longrightarrow> 0 < N \<Longrightarrow> seg_lazy s ! 0 = seg_identityUpdate s"
proof (rule ccontr)
  assume a: "tags_ok N s" "0 < N" "seg_lazy s ! 0 \<noteq> seg_identityUpdate s"
  then have "good N 0" by (simp add: tags_ok_def)
  with a(2) show False by (auto simp: good_def)
qed

lemma tree_upd_tags: "tags_ok N s \<Longrightarrow> tree_upd f i v s = Some s' \<Longrightarrow> tags_ok N s'"
  by (auto simp: tags_ok_tree)

lemma touch_tags:
  assumes "tags_ok N s" "good N i" "touch f g i v s = Some s'"
  shows "tags_ok N s'"
proof -
  from assms(3) have s': "s' = (s\<lparr>seg_tree := (seg_tree s)[i := f (seg_tree s ! i) v]\<rparr>)
         \<lparr>seg_lazy := (seg_lazy s)[i := g (seg_lazy s ! i) v]\<rparr>"
    by (simp add: touch_Some)
  have "tags_ok N (s\<lparr>seg_tree := (seg_tree s)[i := f (seg_tree s ! i) v]\<rparr>)"
    using assms(1) by (simp add: tags_ok_tree)
  from tags_ok_lazy_good[OF this assms(2)] show ?thesis unfolding s' by simp
qed

lemma recalc_step_tags: "tags_ok N s \<Longrightarrow> recalc_step op f pos s = Some s' \<Longrightarrow> tags_ok N s'"
  by (auto simp: recalc_step_Some tags_ok_tree)

lemma push_last_tags:
  assumes "tags_ok N s" "push_last f i s = Some s'"
  shows "tags_ok N s'"
proof (cases "seg_lazy s ! i = seg_identityUpdate s")
  case True
  with assms(2) have "i < length (seg_lazy s)"
    by (cases "i < length (seg_lazy s)") (simp_all add: push_last_oob)
  with True assms show ?thesis by (simp add: push_last_id)
next
  case False
  from assms(2) have s': "s' = (s\<lparr>seg_tree := (seg_tree s)[2 * i := f (seg_tree s ! (2 * i)) (seg_lazy s ! i),
                                       2 * i + 1 := f (seg_tree s ! (2 * i + 1)) (seg_lazy s ! i)]\<rparr>)
            \<lparr>seg_lazy := (seg_lazy s)[i := seg_identityUpdate s]\<rparr>"
    unfolding push_last_Some[OF False] by simp
  have "tags_ok N (s\<lparr>seg_tree := (seg_tree s)[2 * i := f (seg_tree s ! (2 * i)) (seg_lazy s ! i),
                                       2 * i + 1 := f (seg_tree s ! (2 * i + 1)) (seg_lazy s ! i)]\<rparr>)"
    using assms(1) by (simp add: tags_ok_tree)
  from tags_ok_lazy_id[OF this, of i] show ?thesis unfolding s' by simp
qed

lemma push_inner_tags:
  assumes "tags_ok N s" "push_inner f g i s = Some s'"
  shows "tags_ok N s'"
proof -
  have in_b: "i < length (seg_lazy s)"
    using assms(2) by (cases "i < length (seg_lazy s)") (simp_all add: push_inner_oob)
  show ?thesis
  proof (cases "seg_lazy s ! i = seg_identityUpdate s")
    case True
    with in_b assms show ?thesis by (simp add: push_inner_id)
  next
    case False
    from assms(1) in_b have N: "i < N" by (simp add: tags_ok_def)
    with False assms(1) have g: "good N i" by (simp add: tags_ok_def)
    from good_pos[OF g] N have i1: "1 \<le> i" by simp
    note ch = assms(2)[unfolded push_inner_Some[OF i1 False]]
    from ch have st: "2 * i + 1 < length (seg_lazy s)" by (rule conjunct2[THEN conjunct1])
    from st assms(1) have "2 * i < N" by (simp add: tags_ok_def)
    from good_child[OF g this] have gc: "good N (2 * i)" "good N (2 * i + 1)" .
    define s1 where "s1 = s\<lparr>seg_tree := (seg_tree s)[2 * i := f (seg_tree s ! (2 * i)) (seg_lazy s ! i),
                                       2 * i + 1 := f (seg_tree s ! (2 * i + 1)) (seg_lazy s ! i)]\<rparr>"
    have t1: "tags_ok N s1" unfolding s1_def using assms(1) by (simp add: tags_ok_tree)
    define s2 where "s2 = s1\<lparr>seg_lazy := (seg_lazy s1)[2 * i := g (seg_lazy s ! (2 * i)) (seg_lazy s ! i)]\<rparr>"
    have t2: "tags_ok N s2" unfolding s2_def using t1 gc(1) by (rule tags_ok_lazy_good)
    define s3 where "s3 = s2\<lparr>seg_lazy := (seg_lazy s2)[2 * i + 1 := g (seg_lazy s ! (2 * i + 1)) (seg_lazy s ! i)]\<rparr>"
    have t3: "tags_ok N s3" unfolding s3_def using t2 gc(2) by (rule tags_ok_lazy_good)
    have t4: "tags_ok N (s3\<lparr>seg_lazy := (seg_lazy s3)[i := seg_identityUpdate s3]\<rparr>)"
      using t3 by (rule tags_ok_lazy_id)
    have e: "s3\<lparr>seg_lazy := (seg_lazy s3)[i := seg_identityUpdate s3]\<rparr> =
        s\<lparr>seg_tree := (seg_tree s)[2 * i := f (seg_tree s ! (2 * i)) (seg_lazy s ! i),
                                       2 * i + 1 := f (seg_tree s ! (2 * i + 1)) (seg_lazy s ! i)],
            seg_lazy := (seg_lazy s)[2 * i := g (seg_lazy s ! (2 * i)) (seg_lazy s ! i),
                                       2 * i + 1 := g (seg_lazy s ! (2 * i + 1)) (seg_lazy s ! i),
                                       i := seg_identityUpdate s]\<rparr>"
      unfolding s3_def s2_def s1_def by simp
    from ch have "s' = s\<lparr>seg_tree := (seg_tree s)[2 * i := f (seg_tree s ! (2 * i)) (seg_lazy s ! i),
                                       2 * i + 1 := f (seg_tree s ! (2 * i + 1)) (seg_lazy s ! i)],
            seg_lazy := (seg_lazy s)[2 * i := g (seg_lazy s ! (2 * i)) (seg_lazy s ! i),
                                       2 * i + 1 := g (seg_lazy s ! (2 * i + 1)) (seg_lazy s ! i),
                                       i := seg_identityUpdate s]\<rparr>"
      by (rule conjunct2[THEN conjunct2])
    with e t4 show ?thesis by simp
  qed
qed

lemma Propagate_loop_tags:
  "tags_ok N s \<Longrightarrow> Propagate_loop f g k pos s = Some s' \<Longrightarrow> tags_ok N s'"
proof (induction f g k pos s rule: Propagate_loop.induct)
  case (1 f g k pos s)
  show ?case
  proof (cases "1 < k")
    case False
    with "1.prems" show ?thesis by (simp add: Propagate_loop.simps[of f g k])
  next
    case True
    with "1.prems" obtain s1 where
      a: "push_inner f g (pos div 2 ^ k) s = Some s1"
      and b: "Propagate_loop f g (k - 1) pos s1 = Some s'"
      by (auto simp: Propagate_loop.simps[of f g k] split: option.splits)
    from "1.IH"[OF True a push_inner_tags[OF "1.prems"(1) a] b] show ?thesis .
  qed
qed

lemma Propagate_tags:
  assumes "tags_ok N s" "Propagate f g pos s = Some s'"
  shows "tags_ok N s'"
proof -
  from assms(2) obtain s1 where a: "Propagate_loop f g (seg_LOG s) pos s = Some s1"
    and b: "push_last f (pos div 2) s1 = Some s'"
    by (auto simp: Propagate_def bind_eq_Some_conv)
  from push_last_tags[OF Propagate_loop_tags[OF assms(1) a] b] show ?thesis .
qed

lemma recalculate_loop_tags:
  "tags_ok N s \<Longrightarrow> recalculate_loop op f pos s = Some s' \<Longrightarrow> tags_ok N s'"
proof (induction op f pos s rule: recalculate_loop.induct)
  case (1 op f pos s)
  show ?case
  proof (cases "0 < pos")
    case False
    with "1.prems" show ?thesis by (simp add: recalculate_loop.simps[of op f pos])
  next
    case True
    with "1.prems" obtain s1 where
      a: "recalc_step op f pos s = Some s1"
      and b: "recalculate_loop op f (pos div 2) s1 = Some s'"
      by (auto simp: recalculate_loop.simps[of op f pos] split: option.splits)
    from "1.IH"[OF True a recalc_step_tags[OF "1.prems"(1) a] b] show ?thesis .
  qed
qed

lemma Update_leaves_tags:
  "tags_ok N s \<Longrightarrow> Update_leaves f v l r s = Some s' \<Longrightarrow> tags_ok N s'"
  by (auto simp: Update_leaves_def bind_eq_Some_conv tags_ok_tree split: if_splits)

lemma Update_loop_tags:
  "tags_ok N s \<Longrightarrow> 1 \<le> h \<Longrightarrow> N \<le> left * 2 ^ h \<Longrightarrow> right * 2 ^ h \<le> 2 * N \<Longrightarrow>
   Update_loop f g v left right s = Some s' \<Longrightarrow> tags_ok N s'"
proof (induction f g v left right s arbitrary: h rule: Update_loop.induct)
  case (1 f g v left right s)
  show ?case
  proof (cases "left < right")
    case False
    with "1.prems" show ?thesis by (simp add: Update_loop.simps[of f g v left right])
  next
    case True
    define s1o where "s1o = (if left mod 2 = 1 then touch f g left v s else Some s)"
    from "1.prems"(5) True obtain s1 where s1: "s1o = Some s1"
      unfolding s1o_def by (auto simp: Update_loop.simps[of f g v left right] split: option.splits)
    define s2o where "s2o = (if right mod 2 = 1 then touch f g (right - 1) v s1 else Some s1)"
    from "1.prems"(5) True s1 obtain s2 where s2: "s2o = Some s2"
      and rec: "Update_loop f g v ((if left mod 2 = 1 then left + 1 else left) div 2)
                   ((if right mod 2 = 1 then right - 1 else right) div 2) s2 = Some s'"
      unfolding s1o_def s2o_def
      by (auto simp: Update_loop.simps[of f g v left right] split: option.splits)
    have "left + 1 \<le> right" using True by simp
    then have "(left + 1) * 2 ^ h \<le> right * 2 ^ h" by (rule mult_le_mono1)
    with "1.prems"(4) have "(left + 1) * 2 ^ h \<le> 2 * N" by linarith
    with "1.prems"(2,3) have gl: "good N left"
      unfolding good_def by (intro exI[of _ h]) simp
    have "left \<le> right - 1" using True by simp
    then have "left * 2 ^ h \<le> (right - 1) * 2 ^ h" by (rule mult_le_mono1)
    with "1.prems"(3) have a: "N \<le> (right - 1) * 2 ^ h" by linarith
    have "right - 1 + 1 = right" using True by simp
    with "1.prems"(4) have b: "(right - 1 + 1) * 2 ^ h \<le> 2 * N" by simp
    from a b "1.prems"(2) have gr: "good N (right - 1)"
      unfolding good_def by (intro exI[of _ h] conjI)
    have t1: "tags_ok N s1" using s1 "1.prems"(1) gl unfolding s1o_def
      by (auto split: if_splits intro: touch_tags)
    have t2: "tags_ok N s2" using s2 t1 gr unfolding s2o_def
      by (auto split: if_splits intro: touch_tags)
    define L where "L = (if left mod 2 = 1 then left + 1 else left) div 2"
    define R where "R = (if right mod 2 = 1 then right - 1 else right) div 2"
    have "left \<le> L * 2" unfolding L_def by auto
    then have "left * 2 ^ h \<le> L * 2 * 2 ^ h" by (rule mult_le_mono1)
    then have "left * 2 ^ h \<le> L * 2 ^ Suc h" by (simp add: mult.assoc)
    with "1.prems"(3) have l': "N \<le> L * 2 ^ Suc h" by linarith
    have "R * 2 \<le> right" unfolding R_def by auto
    then have "R * 2 * 2 ^ h \<le> right * 2 ^ h" by (rule mult_le_mono1)
    then have "R * 2 ^ Suc h \<le> right * 2 ^ h" by (simp add: mult.assoc)
    with "1.prems"(4) have r': "R * 2 ^ Suc h \<le> 2 * N" by linarith
    have h': "1 \<le> Suc h" by simp
    from "1.IH"[OF True s1[unfolded s1o_def] s2[unfolded s2o_def] t2 h'
        l'[unfolded L_def] r'[unfolded R_def] rec]
    show ?thesis .
  qed
qed

lemma Update_tags:
  assumes "tags_ok N s" "right \<le> N" "Update op f g s left right v = Some s'"
  shows "tags_ok N s'"
proof -
  have sz: "seg_size s = N" using assms(1) by (simp add: tags_ok_def)
  define l where "l = left + N"
  define r where "r = right + N"
  define L where "L = (if l mod 2 = 1 then l + 1 else l) div 2"
  define R where "R = (if r mod 2 = 1 then r - 1 else r) div 2"
  from assms(3) obtain s1 s2 s3 where
    a: "Update_leaves f v l r s = Some s1"
    and b: "Update_loop f g v L R s1 = Some s2"
    and c: "recalculate_after_update op f l s2 = Some s3"
    and d: "recalculate_after_update op f (r - 1) s3 = Some s'"
    unfolding Update_def Let_def sz l_def r_def L_def R_def
    by (auto simp: bind_eq_Some_conv)
  have t1: "tags_ok N s1" using assms(1) a by (rule Update_leaves_tags)
  have "l \<le> L * 2" unfolding L_def by auto
  then have l': "N \<le> L * 2 ^ 1" unfolding l_def by simp
  have "R * 2 \<le> r" unfolding R_def by auto
  then have r': "R * 2 ^ 1 \<le> 2 * N" unfolding r_def using assms(2) by simp
  have t2: "tags_ok N s2" using t1 _ l' r' b by (rule Update_loop_tags) simp
  have t3: "tags_ok N s3" using t2 c unfolding recalculate_after_update_def
    by (rule recalculate_loop_tags)
  show ?thesis using t3 d unfolding recalculate_after_update_def
    by (rule recalculate_loop_tags)
qed

lemma Query_tags:
  assumes "tags_ok N s" "Query op f g s left right = Some (x, s')"
  shows "tags_ok N s'"
proof -
  from assms(2) obtain s1 where
    a: "Propagate f g (left + seg_size s) s = Some s1"
    and b: "Propagate f g (right + seg_size s - 1) s1 = Some s'"
    unfolding Query_def by (auto simp: bind_eq_Some_conv)
  from Propagate_tags[OF Propagate_tags[OF assms(1) a] b] show ?thesis .
qed

lemma agree_sym: "agree a b \<Longrightarrow> agree b a"
  by (simp add: agree_def)

lemma agree_tree:
  assumes "agree a b" "1 \<le> i \<Longrightarrow> x = y"
  shows "agree (a\<lparr>seg_tree := (seg_tree a)[i := x]\<rparr>) (b\<lparr>seg_tree := (seg_tree b)[i := y]\<rparr>)"
proof -
  have "(seg_tree a)[i := x] ! j = (seg_tree b)[i := y] ! j"
    if "1 \<le> j" "j < length (seg_tree a)" for j
  proof (cases "j = i")
    case True
    with that assms show ?thesis by (simp add: agree_def)
  next
    case False
    with that assms(1) show ?thesis by (simp add: agree_def)
  qed
  with assms(1) show ?thesis by (simp add: agree_def)
qed

lemma agree_lazy:
  "agree a b \<Longrightarrow> agree (a\<lparr>seg_lazy := l\<rparr>) (b\<lparr>seg_lazy := l\<rparr>)"
  by (simp add: agree_def)

lemma agree_nth: "agree a b \<Longrightarrow> 1 \<le> i \<Longrightarrow> i < length (seg_tree a) \<Longrightarrow> seg_tree a ! i = seg_tree b ! i"
  by (simp add: agree_def)

lemma agree_tags: "agree a b \<Longrightarrow> tags_ok N a \<Longrightarrow> tags_ok N b"
  by (simp add: agree_def tags_ok_def)

lemma rel_option_iffI:
  assumes "\<And>x. (f = Some x) = (c \<and> x = u)" "\<And>y. (g = Some y) = (c \<and> y = w)" "c \<Longrightarrow> R u w"
  shows "rel_option R f g"
proof (cases c)
  case True
  from assms(1)[of u] True have f: "f = Some u" by blast
  from assms(2)[of w] True have "g = Some w" by blast
  with f assms(3)[OF True] show ?thesis by simp
next
  case False
  have "f \<noteq> Some x" for x using assms(1)[of x] False by blast
  then have f: "f = None" by (cases f) blast+
  have "g \<noteq> Some y" for y using assms(2)[of y] False by blast
  then have "g = None" by (cases g) blast+
  with f show ?thesis by simp
qed

lemma tree_upd_agree:
  assumes "agree a b"
  shows "rel_option agree (tree_upd f i v a) (tree_upd f i v b)"
proof (rule rel_option_iffI[where c = "i < length (seg_tree a)"])
  show "(tree_upd f i v a = Some x) =
        (i < length (seg_tree a) \<and> x = a\<lparr>seg_tree := (seg_tree a)[i := f (seg_tree a ! i) v]\<rparr>)" for x
    by (rule tree_upd_Some)
  show "(tree_upd f i v b = Some y) =
        (i < length (seg_tree a) \<and> y = b\<lparr>seg_tree := (seg_tree b)[i := f (seg_tree b ! i) v]\<rparr>)" for y
    using assms by (simp add: agree_def)
  assume "i < length (seg_tree a)"
  then show "agree (a\<lparr>seg_tree := (seg_tree a)[i := f (seg_tree a ! i) v]\<rparr>)
                   (b\<lparr>seg_tree := (seg_tree b)[i := f (seg_tree b ! i) v]\<rparr>)"
    using assms by (intro agree_tree) (simp_all add: agree_def)
qed

lemma touch_agree:
  assumes "agree a b"
  shows "rel_option agree (touch f g i v a) (touch f g i v b)"
proof (rule rel_option_iffI[where c = "i < length (seg_tree a) \<and> i < length (seg_lazy a)"])
  show "(touch f g i v a = Some x) =
        ((i < length (seg_tree a) \<and> i < length (seg_lazy a)) \<and>
          x = a\<lparr>seg_tree := (seg_tree a)[i := f (seg_tree a ! i) v],
                 seg_lazy := (seg_lazy a)[i := g (seg_lazy a ! i) v]\<rparr>)" for x
    by (simp add: touch_Some)
  show "(touch f g i v b = Some y) =
        ((i < length (seg_tree a) \<and> i < length (seg_lazy a)) \<and>
          y = b\<lparr>seg_tree := (seg_tree b)[i := f (seg_tree b ! i) v],
                 seg_lazy := (seg_lazy a)[i := g (seg_lazy a ! i) v]\<rparr>)" for y
    using assms by (simp add: touch_Some agree_def)
  assume "i < length (seg_tree a) \<and> i < length (seg_lazy a)"
  then have "agree (a\<lparr>seg_tree := (seg_tree a)[i := f (seg_tree a ! i) v]\<rparr>)
                   (b\<lparr>seg_tree := (seg_tree b)[i := f (seg_tree b ! i) v]\<rparr>)"
    using assms by (intro agree_tree) (simp_all add: agree_def)
  from agree_lazy[OF this, of "(seg_lazy a)[i := g (seg_lazy a ! i) v]"]
  show "agree (a\<lparr>seg_tree := (seg_tree a)[i := f (seg_tree a ! i) v],
                 seg_lazy := (seg_lazy a)[i := g (seg_lazy a ! i) v]\<rparr>)
              (b\<lparr>seg_tree := (seg_tree b)[i := f (seg_tree b ! i) v],
                 seg_lazy := (seg_lazy a)[i := g (seg_lazy a ! i) v]\<rparr>)"
    by simp
qed

lemma recalc_step_agree:
  assumes "agree a b" "1 \<le> pos"
  shows "rel_option agree (recalc_step op f pos a) (recalc_step op f pos b)"
proof (rule rel_option_iffI[where c = "2 * pos + 1 < length (seg_tree a) \<and> pos < length (seg_lazy a)"])
  show "(recalc_step op f pos a = Some x) =
        ((2 * pos + 1 < length (seg_tree a) \<and> pos < length (seg_lazy a)) \<and>
          x = a\<lparr>seg_tree := (seg_tree a)[pos :=
             f (op (seg_tree a ! (2 * pos)) (seg_tree a ! (2 * pos + 1))) (seg_lazy a ! pos)]\<rparr>)" for x
    by (simp add: recalc_step_Some)
  show "(recalc_step op f pos b = Some y) =
        ((2 * pos + 1 < length (seg_tree a) \<and> pos < length (seg_lazy a)) \<and>
          y = b\<lparr>seg_tree := (seg_tree b)[pos :=
             f (op (seg_tree b ! (2 * pos)) (seg_tree b ! (2 * pos + 1))) (seg_lazy a ! pos)]\<rparr>)" for y
    using assms(1) by (simp add: recalc_step_Some agree_def)
  assume c: "2 * pos + 1 < length (seg_tree a) \<and> pos < length (seg_lazy a)"
  have "seg_tree a ! (2 * pos) = seg_tree b ! (2 * pos)"
    "seg_tree a ! (2 * pos + 1) = seg_tree b ! (2 * pos + 1)"
    using assms c by (simp_all add: agree_nth)
  then show "agree (a\<lparr>seg_tree := (seg_tree a)[pos :=
             f (op (seg_tree a ! (2 * pos)) (seg_tree a ! (2 * pos + 1))) (seg_lazy a ! pos)]\<rparr>)
                   (b\<lparr>seg_tree := (seg_tree b)[pos :=
             f (op (seg_tree b ! (2 * pos)) (seg_tree b ! (2 * pos + 1))) (seg_lazy a ! pos)]\<rparr>)"
    using assms(1) by (intro agree_tree) simp_all
qed

lemma rel_bind:
  "rel_option R x y \<Longrightarrow> (\<And>a b. R a b \<Longrightarrow> rel_option S (f a) (g b)) \<Longrightarrow>
   rel_option S (Option.bind x f) (Option.bind y g)"
  by (cases x; cases y; simp)

lemma rel_case:
  "rel_option R x y \<Longrightarrow> (\<And>a b. R a b \<Longrightarrow> rel_option S (f a) (g b)) \<Longrightarrow>
   rel_option S (case x of None \<Rightarrow> None | Some a \<Rightarrow> f a) (case y of None \<Rightarrow> None | Some b \<Rightarrow> g b)"
  by (cases x; cases y; simp)

lemma agree_tree2:
  assumes "agree a b" "1 \<le> i \<Longrightarrow> x = x'" "1 \<le> j \<Longrightarrow> y = y'"
  shows "agree (a\<lparr>seg_tree := (seg_tree a)[i := x, j := y], seg_lazy := l\<rparr>)
               (b\<lparr>seg_tree := (seg_tree b)[i := x', j := y'], seg_lazy := l\<rparr>)"
proof -
  have 1: "agree (a\<lparr>seg_tree := (seg_tree a)[i := x]\<rparr>) (b\<lparr>seg_tree := (seg_tree b)[i := x']\<rparr>)"
    using assms(1,2) by (rule agree_tree)
  have 2: "agree (a\<lparr>seg_tree := (seg_tree a)[i := x]\<rparr>\<lparr>seg_tree := (seg_tree (a\<lparr>seg_tree := (seg_tree a)[i := x]\<rparr>))[j := y]\<rparr>)
                 (b\<lparr>seg_tree := (seg_tree b)[i := x']\<rparr>\<lparr>seg_tree := (seg_tree (b\<lparr>seg_tree := (seg_tree b)[i := x']\<rparr>))[j := y']\<rparr>)"
    using 1 assms(3) by (rule agree_tree)
  from agree_lazy[OF 2, of l] show ?thesis by simp
qed

lemma push_last_agree:
  assumes "agree a b"
  shows "rel_option agree (push_last f i a) (push_last f i b)"
proof -
  have lz: "seg_lazy b = seg_lazy a" "seg_identityUpdate b = seg_identityUpdate a"
    "length (seg_tree b) = length (seg_tree a)"
    using assms by (simp_all add: agree_def)
  show ?thesis
  proof (cases "i < length (seg_lazy a)")
    case False
    then show ?thesis using lz by (simp add: push_last_oob)
  next
    case True
    show ?thesis
    proof (cases "seg_lazy a ! i = seg_identityUpdate a")
      case id: True
      with True lz assms show ?thesis by (simp add: push_last_id)
    next
      case nid: False
      from nid lz have nidb: "seg_lazy b ! i \<noteq> seg_identityUpdate b" by simp
      show ?thesis
      proof (rule rel_option_iffI[where c = "i < length (seg_lazy a) \<and> 2 * i + 1 < length (seg_tree a)"])
        show "(push_last f i a = Some x) =
          ((i < length (seg_lazy a) \<and> 2 * i + 1 < length (seg_tree a)) \<and>
           x = a\<lparr>seg_tree := (seg_tree a)[2 * i := f (seg_tree a ! (2 * i)) (seg_lazy a ! i),
                                       2 * i + 1 := f (seg_tree a ! (2 * i + 1)) (seg_lazy a ! i)],
            seg_lazy := (seg_lazy a)[i := seg_identityUpdate a]\<rparr>)" for x
          unfolding push_last_Some[OF nid] by blast
        show "(push_last f i b = Some y) =
          ((i < length (seg_lazy a) \<and> 2 * i + 1 < length (seg_tree a)) \<and>
           y = b\<lparr>seg_tree := (seg_tree b)[2 * i := f (seg_tree b ! (2 * i)) (seg_lazy a ! i),
                                       2 * i + 1 := f (seg_tree b ! (2 * i + 1)) (seg_lazy a ! i)],
            seg_lazy := (seg_lazy a)[i := seg_identityUpdate a]\<rparr>)" for y
          unfolding push_last_Some[OF nidb] lz by blast
        assume c: "i < length (seg_lazy a) \<and> 2 * i + 1 < length (seg_tree a)"
        have e1: "1 \<le> 2 * i \<Longrightarrow> f (seg_tree a ! (2 * i)) (seg_lazy a ! i) = f (seg_tree b ! (2 * i)) (seg_lazy a ! i)"
          using assms c by (simp add: agree_nth)
        have e2: "f (seg_tree a ! (2 * i + 1)) (seg_lazy a ! i) = f (seg_tree b ! (2 * i + 1)) (seg_lazy a ! i)"
          using assms c by (simp add: agree_nth)
        show "agree (a\<lparr>seg_tree := (seg_tree a)[2 * i := f (seg_tree a ! (2 * i)) (seg_lazy a ! i),
                                       2 * i + 1 := f (seg_tree a ! (2 * i + 1)) (seg_lazy a ! i)],
            seg_lazy := (seg_lazy a)[i := seg_identityUpdate a]\<rparr>)
               (b\<lparr>seg_tree := (seg_tree b)[2 * i := f (seg_tree b ! (2 * i)) (seg_lazy a ! i),
                                       2 * i + 1 := f (seg_tree b ! (2 * i + 1)) (seg_lazy a ! i)],
            seg_lazy := (seg_lazy a)[i := seg_identityUpdate a]\<rparr>)"
          using assms e1 e2 by (rule agree_tree2)
      qed
    qed
  qed
qed

lemma push_inner_agree:
  assumes "agree a b" "tags_ok N a"
  shows "rel_option agree (push_inner f g i a) (push_inner f g i b)"
proof -
  have lz: "seg_lazy b = seg_lazy a" "seg_identityUpdate b = seg_identityUpdate a"
    "length (seg_tree b) = length (seg_tree a)"
    using assms by (simp_all add: agree_def)
  show ?thesis
  proof (cases "i < length (seg_lazy a)")
    case False
    then show ?thesis using lz by (simp add: push_inner_oob)
  next
    case True
    show ?thesis
    proof (cases "seg_lazy a ! i = seg_identityUpdate a")
      case id: True
      with True lz assms show ?thesis by (simp add: push_inner_id)
    next
      case nid: False
      from nid lz have nidb: "seg_lazy b ! i \<noteq> seg_identityUpdate b" by simp
      from True assms(2) have iN: "i < N" by (simp add: tags_ok_def)
      with nid assms(2) have "good N i" by (simp add: tags_ok_def)
      from good_pos[OF this] iN have i1: "1 \<le> i" by simp
      show ?thesis
      proof (rule rel_option_iffI[where c = "2 * i + 1 < length (seg_tree a) \<and> 2 * i + 1 < length (seg_lazy a)"])
        show "(push_inner f g i a = Some x) =
          ((2 * i + 1 < length (seg_tree a) \<and> 2 * i + 1 < length (seg_lazy a)) \<and>
           x = a\<lparr>seg_tree := (seg_tree a)[2 * i := f (seg_tree a ! (2 * i)) (seg_lazy a ! i),
                                       2 * i + 1 := f (seg_tree a ! (2 * i + 1)) (seg_lazy a ! i)],
            seg_lazy := (seg_lazy a)[2 * i := g (seg_lazy a ! (2 * i)) (seg_lazy a ! i),
                                       2 * i + 1 := g (seg_lazy a ! (2 * i + 1)) (seg_lazy a ! i),
                                       i := seg_identityUpdate a]\<rparr>)" for x
          unfolding push_inner_Some[OF i1 nid] by blast
        show "(push_inner f g i b = Some y) =
          ((2 * i + 1 < length (seg_tree a) \<and> 2 * i + 1 < length (seg_lazy a)) \<and>
           y = b\<lparr>seg_tree := (seg_tree b)[2 * i := f (seg_tree b ! (2 * i)) (seg_lazy a ! i),
                                       2 * i + 1 := f (seg_tree b ! (2 * i + 1)) (seg_lazy a ! i)],
            seg_lazy := (seg_lazy a)[2 * i := g (seg_lazy a ! (2 * i)) (seg_lazy a ! i),
                                       2 * i + 1 := g (seg_lazy a ! (2 * i + 1)) (seg_lazy a ! i),
                                       i := seg_identityUpdate a]\<rparr>)" for y
          unfolding push_inner_Some[OF i1 nidb] lz by blast
        assume c: "2 * i + 1 < length (seg_tree a) \<and> 2 * i + 1 < length (seg_lazy a)"
        have e1: "f (seg_tree a ! (2 * i)) (seg_lazy a ! i) = f (seg_tree b ! (2 * i)) (seg_lazy a ! i)"
          using assms(1) c i1 by (simp add: agree_nth)
        have e2: "f (seg_tree a ! (2 * i + 1)) (seg_lazy a ! i) = f (seg_tree b ! (2 * i + 1)) (seg_lazy a ! i)"
          using assms(1) c by (simp add: agree_nth)
        show "agree (a\<lparr>seg_tree := (seg_tree a)[2 * i := f (seg_tree a ! (2 * i)) (seg_lazy a ! i),
                                       2 * i + 1 := f (seg_tree a ! (2 * i + 1)) (seg_lazy a ! i)],
            seg_lazy := (seg_lazy a)[2 * i := g (seg_lazy a ! (2 * i)) (seg_lazy a ! i),
                                       2 * i + 1 := g (seg_lazy a ! (2 * i + 1)) (seg_lazy a ! i),
                                       i := seg_identityUpdate a]\<rparr>)
               (b\<lparr>seg_tree := (seg_tree b)[2 * i := f (seg_tree b ! (2 * i)) (seg_lazy a ! i),
                                       2 * i + 1 := f (seg_tree b ! (2 * i + 1)) (seg_lazy a ! i)],
            seg_lazy := (seg_lazy a)[2 * i := g (seg_lazy a ! (2 * i)) (seg_lazy a ! i),
                                       2 * i + 1 := g (seg_lazy a ! (2 * i + 1)) (seg_lazy a ! i),
                                       i := seg_identityUpdate a]\<rparr>)"
          using assms(1) e1 e2 by (rule agree_tree2)
      qed
    qed
  qed
qed

lemma Propagate_loop_agree:
  "agree a b \<Longrightarrow> tags_ok N a \<Longrightarrow>
   rel_option agree (Propagate_loop f g k pos a) (Propagate_loop f g k pos b)"
proof (induction f g k pos a arbitrary: b rule: Propagate_loop.induct)
  case (1 f g k pos a)
  show ?case
  proof (cases "1 < k")
    case False
    with "1.prems" show ?thesis by (simp add: Propagate_loop.simps[of f g k])
  next
    case True
    have step: "rel_option agree (Propagate_loop f g (k - 1) pos a1) (Propagate_loop f g (k - 1) pos b1)"
      if "push_inner f g (pos div 2 ^ k) a = Some a1" "agree a1 b1" for a1 b1
      using "1.IH"[OF True that(1) that(2) push_inner_tags[OF "1.prems"(2) that(1)]] .
    have "rel_option (\<lambda>a1 b1. push_inner f g (pos div 2 ^ k) a = Some a1 \<and> agree a1 b1)
            (push_inner f g (pos div 2 ^ k) a) (push_inner f g (pos div 2 ^ k) b)"
      using push_inner_agree[OF "1.prems", of f g "pos div 2 ^ k"]
      by (cases "push_inner f g (pos div 2 ^ k) a"; cases "push_inner f g (pos div 2 ^ k) b"; simp)
    then have "rel_option agree
        (case push_inner f g (pos div 2 ^ k) a of None \<Rightarrow> None
         | Some s' \<Rightarrow> Propagate_loop f g (k - 1) pos s')
        (case push_inner f g (pos div 2 ^ k) b of None \<Rightarrow> None
         | Some s' \<Rightarrow> Propagate_loop f g (k - 1) pos s')"
      by (rule rel_case) (use step in blast)
    with True show ?thesis
      by (simp add: Propagate_loop.simps[of f g k])
  qed
qed

lemma bitlen_bounds: "1 \<le> N \<Longrightarrow> 2 ^ (bitlen N - 1) \<le> N \<and> N < 2 ^ bitlen N"
proof (induction N rule: bitlen.induct)
  case (1 n)
  show ?case
  proof (cases "n div 2 = 0")
    case True
    with "1.prems" have "n = 1" by (cases n) auto
    then show ?thesis by (simp add: bitlen.simps[of "Suc 0"] bitlen.simps[of 0])
  next
    case False
    then have h: "1 \<le> n div 2" by simp
    from "1.prems" have n0: "n \<noteq> 0" by simp
    from "1.IH"[OF n0 h] have ih: "2 ^ (bitlen (n div 2) - 1) \<le> n div 2" "n div 2 < 2 ^ bitlen (n div 2)"
      by simp_all
    have b: "bitlen n = Suc (bitlen (n div 2))" using n0 by (simp add: bitlen.simps[of n])
    have pos: "1 \<le> bitlen (n div 2)" using False by (simp add: bitlen.simps[of "n div 2"])
    then obtain k where k: "bitlen (n div 2) = Suc k" by (cases "bitlen (n div 2)") auto
    from ih k have "2 ^ k \<le> n div 2" "n div 2 < 2 ^ Suc k" by simp_all
    then have "2 * 2 ^ k \<le> n" "n < 2 * 2 ^ Suc k" by auto
    then show ?thesis unfolding b k by simp
  qed
qed

lemma Propagate_loop_extra:
  assumes "tags_ok N b" "pos < 2 * N" "K + 1 = bitlen N" "1 \<le> N"
  shows "Propagate_loop f g (K + 1) pos b = Propagate_loop f g K pos b"
proof (cases "K = 0")
  case True
  then show ?thesis by (simp add: Propagate_loop.simps[of f g 0] Propagate_loop.simps[of f g "Suc 0"])
next
  case False
  define j where "j = pos div 2 ^ (K + 1)"
  from bitlen_bounds[OF assms(4)] assms(3) have bb: "2 ^ K \<le> N" "N < 2 ^ (K + 1)"
    by (simp_all flip: assms(3))
  from False have "(2::nat) ^ 1 \<le> 2 ^ K" by (intro power_increasing) auto
  with bb(1) have N2: "2 \<le> N" by simp
  have "pos < 2 * 2 ^ (K + 1)" using assms(2) bb(2) by simp
  then have j1: "j < 2" unfolding j_def by (simp add: less_mult_imp_div_less mult.commute)
  with N2 have jN: "j < N" by simp
  have id: "seg_lazy b ! j = seg_identityUpdate b"
  proof (rule ccontr)
    assume "seg_lazy b ! j \<noteq> seg_identityUpdate b"
    with assms(1) jN have gd: "good N j" by (simp add: tags_ok_def)
    from good_pos[OF gd assms(4)] j1 have j: "j = 1" by simp
    from gd j obtain h where h: "1 \<le> h" "N \<le> 2 ^ h" "2 * 2 ^ h \<le> 2 * N"
      by (auto simp: good_def)
    then have Nh: "N = 2 ^ h" by simp
    from bb Nh have "(2::nat) ^ K \<le> 2 ^ h" "(2::nat) ^ h < 2 ^ (K + 1)" by simp_all
    then have "K \<le> h" "h < K + 1" by (simp_all add: power_le_imp_le_exp power_less_imp_less_exp del: power_Suc)
    then have "h = K" by simp
    with Nh have N: "2 * N = 2 ^ (K + 1)" by simp
    from j have "0 < pos div 2 ^ (K + 1)" unfolding j_def by simp
    then have "2 ^ (K + 1) \<le> pos" by (simp only: div_greater_zero_iff)
    with N assms(2) show False by simp
  qed
  from jN assms(1) have "j < length (seg_lazy b)" by (simp add: tags_ok_def)
  from push_inner_id[OF this id] have "push_inner f g j b = Some b" .
  with False show ?thesis unfolding j_def
    by (simp add: Propagate_loop.simps[of f g "Suc K"])
qed

lemma Propagate_oob:
  assumes "tags_ok N s"
  shows "Propagate f g (2 * N) s = None"
proof (cases "Propagate_loop f g (seg_LOG s) (2 * N) s")
  case None
  then show ?thesis by (simp add: Propagate_def)
next
  case (Some s1)
  from Propagate_loop_tags[OF assms Some] have "length (seg_lazy s1) = N" by (simp add: tags_ok_def)
  then have "push_last f N s1 = None" by (simp add: push_last_oob)
  with Some show ?thesis by (simp add: Propagate_def)
qed

lemma sim_frame:
  "sim N a b \<Longrightarrow> frame a a' \<Longrightarrow> frame b b' \<Longrightarrow> agree a' b' \<Longrightarrow> tags_ok N a' \<Longrightarrow> sim N a' b'"
  by (simp add: sim_def frame_def)

lemma Propagate_sim:
  assumes "sim N a b" "pos \<le> 2 * N"
  shows "rel_option (sim N) (Propagate f g pos a) (Propagate f g pos b)"
proof (cases "pos = 2 * N")
  case True
  from assms(1) have "tags_ok N a" "tags_ok N b" by (auto simp: sim_def intro: agree_tags)
  then show ?thesis unfolding True by (simp add: Propagate_oob)
next
  case False
  with assms(2) have lt: "pos < 2 * N" by simp
  from assms(1) have ag: "agree a b" and ta: "tags_ok N a" and N1: "1 \<le> N"
    and la: "seg_LOG a + 1 = bitlen N" and lb: "seg_LOG b = bitlen N"
    by (simp_all add: sim_def)
  from agree_tags[OF ag ta] have tb: "tags_ok N b" .
  have eq: "Propagate_loop f g (seg_LOG b) pos b = Propagate_loop f g (seg_LOG a) pos b"
    using Propagate_loop_extra[OF tb lt la N1, of f g] la lb by simp
  have "rel_option agree (Propagate f g pos a) (Propagate f g pos b)"
    unfolding Propagate_def eq
    by (rule rel_bind[OF Propagate_loop_agree[OF ag ta]]) (rule push_last_agree)
  moreover have "sim N a' b'"
    if "Propagate f g pos a = Some a'" "Propagate f g pos b = Some b'" "agree a' b'" for a' b'
    using assms(1) Propagate_frame[OF that(1)] Propagate_frame[OF that(2)] that(3)
      Propagate_tags[OF ta that(1)] by (rule sim_frame)
  ultimately show ?thesis
    by (cases "Propagate f g pos a"; cases "Propagate f g pos b"; simp)
qed

lemma Query_loop_agree:
  "agree a b \<Longrightarrow> 1 \<le> left \<Longrightarrow>
   Query_loop op a left right x y = Query_loop op b left right x y"
proof (induction op a left right x y rule: Query_loop.induct)
  case (1 op a left right x y)
  show ?case
  proof (cases "left < right")
    case False
    then show ?thesis
      by (simp add: Query_loop.simps[of op a left right] Query_loop.simps[of op b left right])
  next
    case True
    from "1.prems"(1) have len: "length (seg_tree b) = length (seg_tree a)" by (simp add: agree_def)
    have tl: "tree_at b left = tree_at a left"
      using "1.prems" len by (simp add: tree_at_def agree_nth)
    have tr: "tree_at b (right - 1) = tree_at a (right - 1)"
      using "1.prems" len True by (simp add: tree_at_def agree_nth)
    define lo where "lo = (if left mod 2 = 1 then map_option (op x) (tree_at a left) else Some x)"
    define ro where "ro = (if right mod 2 = 1 then map_option (\<lambda>t. op t y) (tree_at a (right - 1)) else Some y)"
    define L where "L = (if left mod 2 = 1 then left + 1 else left) div 2"
    define R where "R = (if right mod 2 = 1 then right - 1 else right) div 2"
    have L1: "1 \<le> L" using "1.prems"(2) unfolding L_def by auto
    have A: "Query_loop op a left right x y =
        (case lo of None \<Rightarrow> None | Some lres \<Rightarrow>
          (case ro of None \<Rightarrow> None | Some rres \<Rightarrow> Query_loop op a L R lres rres))"
      using True unfolding lo_def ro_def L_def R_def
      by (subst Query_loop.simps) simp
    have B: "Query_loop op b left right x y =
        (case lo of None \<Rightarrow> None | Some lres \<Rightarrow>
          (case ro of None \<Rightarrow> None | Some rres \<Rightarrow> Query_loop op b L R lres rres))"
      using True unfolding lo_def ro_def L_def R_def tl[symmetric] tr[symmetric]
      by (subst Query_loop.simps) simp
    have "Query_loop op a L R lres rres = Query_loop op b L R lres rres"
      if "lo = Some lres" "ro = Some rres" for lres rres
      using "1.IH"[OF True that(1)[unfolded lo_def] that(2)[unfolded ro_def] "1.prems"(1)] L1
      unfolding L_def R_def by simp
    then show ?thesis unfolding A B by (auto split: option.splits)
  qed
qed

lemma Update_leaves_frame: "Update_leaves f v l r s = Some s' \<Longrightarrow> frame s s'"
  by (auto simp: Update_leaves_def bind_eq_Some_conv frame_def split: if_splits)

lemma Update_loop_frame:
  "Update_loop f g v left right s = Some s' \<Longrightarrow> frame s s'"
proof (induction f g v left right s rule: Update_loop.induct)
  case (1 f g v left right s)
  show ?case
  proof (cases "left < right")
    case False
    with "1.prems" show ?thesis by (simp add: Update_loop.simps[of f g v left right])
  next
    case True
    define s1o where "s1o = (if left mod 2 = 1 then touch f g left v s else Some s)"
    from "1.prems" True obtain s1 where s1: "s1o = Some s1"
      unfolding s1o_def by (auto simp: Update_loop.simps[of f g v left right] split: option.splits)
    define s2o where "s2o = (if right mod 2 = 1 then touch f g (right - 1) v s1 else Some s1)"
    from "1.prems" True s1 obtain s2 where s2: "s2o = Some s2"
      and rec: "Update_loop f g v ((if left mod 2 = 1 then left + 1 else left) div 2)
                   ((if right mod 2 = 1 then right - 1 else right) div 2) s2 = Some s'"
      unfolding s1o_def s2o_def
      by (auto simp: Update_loop.simps[of f g v left right] split: option.splits)
    have f1: "frame s s1" using s1 unfolding s1o_def
      by (auto split: if_splits intro: touch_frame)
    have f2: "frame s1 s2" using s2 unfolding s2o_def
      by (auto split: if_splits intro: touch_frame)
    from "1.IH"[OF True s1[unfolded s1o_def] s2[unfolded s2o_def] rec] have "frame s2 s'" .
    with f1 f2 show ?thesis by (blast intro: frame_trans)
  qed
qed

lemma Update_frame:
  assumes "Update op f g s left right v = Some s'"
  shows "frame s s'"
proof -
  from assms obtain s1 s2 s3 where
    a: "Update_leaves f v (left + seg_size s) (right + seg_size s) s = Some s1"
    and b: "Update_loop f g v
              ((if (left + seg_size s) mod 2 = 1 then left + seg_size s + 1 else left + seg_size s) div 2)
              ((if (right + seg_size s) mod 2 = 1 then right + seg_size s - 1 else right + seg_size s) div 2)
              s1 = Some s2"
    and c: "recalculate_loop op f ((left + seg_size s) div 2) s2 = Some s3"
    and d: "recalculate_loop op f ((right + seg_size s - 1) div 2) s3 = Some s'"
    unfolding Update_def Let_def recalculate_after_update_def
    by (auto simp: bind_eq_Some_conv)
  from Update_leaves_frame[OF a] Update_loop_frame[OF b] recalculate_loop_frame[OF c]
    recalculate_loop_frame[OF d]
  show ?thesis by (blast intro: frame_trans)
qed

lemma Query_frame:
  assumes "Query op f g s left right = Some (x, s')"
  shows "frame s s'"
proof -
  from assms obtain s1 where
    a: "Propagate f g (left + seg_size s) s = Some s1"
    and b: "Propagate f g (right + seg_size s - 1) s1 = Some s'"
    unfolding Query_def by (auto simp: bind_eq_Some_conv)
  from Propagate_frame[OF a] Propagate_frame[OF b] show ?thesis by (rule frame_trans)
qed

lemma Update_leaves_agree:
  assumes "agree a b"
  shows "rel_option agree (Update_leaves f v l r a) (Update_leaves f v l r b)"
proof -
  have 1: "rel_option agree (if l mod 2 = 1 then tree_upd f l v a else Some a)
                            (if l mod 2 = 1 then tree_upd f l v b else Some b)"
    using assms by (simp add: tree_upd_agree)
  have 2: "rel_option agree (if r mod 2 = 1 then tree_upd f (r - 1) v a1 else Some a1)
                            (if r mod 2 = 1 then tree_upd f (r - 1) v b1 else Some b1)"
    if "agree a1 b1" for a1 b1
    using that by (simp add: tree_upd_agree)
  show ?thesis unfolding Update_leaves_def
    by (rule rel_bind[OF 1]) (rule 2)
qed

lemma Update_loop_agree:
  "agree a b \<Longrightarrow> rel_option agree (Update_loop f g v left right a) (Update_loop f g v left right b)"
proof (induction f g v left right a arbitrary: b rule: Update_loop.induct)
  case (1 f g v left right a)
  show ?case
  proof (cases "left < right")
    case False
    with "1.prems" show ?thesis
      by (simp add: Update_loop.simps[of f g v left right])
  next
    case True
    define L where "L = (if left mod 2 = 1 then left + 1 else left) div 2"
    define R where "R = (if right mod 2 = 1 then right - 1 else right) div 2"
    define F1 where "F1 = (\<lambda>s. if left mod 2 = 1 then touch f g left v s else Some s)"
    define F2 where "F2 = (\<lambda>s. if right mod 2 = 1 then touch f g (right - 1) v s else Some s)"
    have U: "Update_loop f g v left right s =
        (case F1 s of None \<Rightarrow> None | Some s1 \<Rightarrow>
          (case F2 s1 of None \<Rightarrow> None | Some s2 \<Rightarrow> Update_loop f g v L R s2))" for s
      using True unfolding F1_def F2_def L_def R_def
      by (subst Update_loop.simps) simp
    have r1: "rel_option agree (F1 x) (F1 y)" if "agree x y" for x y
      using that unfolding F1_def by (simp add: touch_agree)
    have r2: "rel_option agree (F2 x) (F2 y)" if "agree x y" for x y
      using that unfolding F2_def by (simp add: touch_agree)
    have ih: "rel_option agree (Update_loop f g v L R a2) (Update_loop f g v L R b2)"
      if "F1 a = Some a1" "F2 a1 = Some a2" "agree a2 b2" for a1 a2 b2
      using "1.IH"[OF True that(1)[unfolded F1_def] that(2)[unfolded F2_def] that(3)]
      unfolding L_def R_def .
    show ?thesis
    proof (cases "F1 a")
      case None
      with r1[OF "1.prems"] have "F1 b = None" by (cases "F1 b") simp_all
      with None show ?thesis unfolding U by simp
    next
      case a1: (Some a1)
      with r1[OF "1.prems"] obtain b1 where b1: "F1 b = Some b1" "agree a1 b1"
        by (cases "F1 b") simp_all
      show ?thesis
      proof (cases "F2 a1")
        case None
        with r2[OF b1(2)] have "F2 b1 = None" by (cases "F2 b1") simp_all
        with None a1 b1 show ?thesis unfolding U by simp
      next
        case a2: (Some a2)
        with r2[OF b1(2)] obtain b2 where b2: "F2 b1 = Some b2" "agree a2 b2"
          by (cases "F2 b1") simp_all
        from ih[OF a1 a2 b2(2)] a1 a2 b1 b2 show ?thesis unfolding U by simp
      qed
    qed
  qed
qed

lemma recalculate_loop_agree:
  "agree a b \<Longrightarrow> rel_option agree (recalculate_loop op f pos a) (recalculate_loop op f pos b)"
proof (induction op f pos a arbitrary: b rule: recalculate_loop.induct)
  case (1 op f pos a)
  show ?case
  proof (cases "0 < pos")
    case False
    then have "pos = 0" by simp
    with "1.prems" show ?thesis by (simp add: recalculate_loop.simps[of op f 0])
  next
    case True
    then have p1: "1 \<le> pos" by simp
    note r = recalc_step_agree[OF "1.prems" p1, of op f]
    show ?thesis
    proof (cases "recalc_step op f pos a")
      case None
      with r have "recalc_step op f pos b = None" by (cases "recalc_step op f pos b") simp_all
      with None True show ?thesis by (simp add: recalculate_loop.simps[of op f pos])
    next
      case (Some a1)
      with r obtain b1 where b1: "recalc_step op f pos b = Some b1" "agree a1 b1"
        by (cases "recalc_step op f pos b") simp_all
      from "1.IH"[OF True Some b1(2)] Some b1 True show ?thesis
        by (simp add: recalculate_loop.simps[of op f pos])
    qed
  qed
qed

lemma Update_agree:
  assumes "agree a b"
  shows "rel_option agree (Update op f g a left right v) (Update op f g b left right v)"
proof -
  have sz: "seg_size b = seg_size a" using assms by (simp add: agree_def)
  show ?thesis
    unfolding Update_def Let_def sz recalculate_after_update_def
    by (intro rel_bind[OF Update_leaves_agree[OF assms]] rel_bind[OF Update_loop_agree]
          rel_bind[OF recalculate_loop_agree] recalculate_loop_agree)
qed

lemma Update_sim:
  assumes "sim N a b" "right \<le> N"
  shows "rel_option (sim N) (Update op f g a left right v) (Update op f g b left right v)"
proof -
  from assms(1) have ag: "agree a b" and ta: "tags_ok N a" by (simp_all add: sim_def)
  note r = Update_agree[OF ag, of op f g left right v]
  have "sim N a' b'"
    if "Update op f g a left right v = Some a'" "Update op f g b left right v = Some b'"
      "agree a' b'" for a' b'
    using assms(1) Update_frame[OF that(1)] Update_frame[OF that(2)] that(3)
      Update_tags[OF ta assms(2) that(1)] by (rule sim_frame)
  with r show ?thesis
    by (cases "Update op f g a left right v"; cases "Update op f g b left right v"; simp)
qed

lemma Query_sim:
  assumes "sim N a b" "left \<le> N" "right \<le> N"
  shows "rel_option (\<lambda>p q. fst p = fst q \<and> sim N (snd p) (snd q))
           (Query op f g a left right) (Query op f g b left right)"
proof -
  from assms(1) have sa: "seg_size a = N" and sb: "seg_size b = N" and N1: "1 \<le> N"
    by (simp_all add: sim_def tags_ok_def agree_def)
  have p1: "left + N \<le> 2 * N" using assms(2) by simp
  have p2: "right + N - 1 \<le> 2 * N" using assms(3) by simp
  have fin: "rel_option (\<lambda>p q. fst p = fst q \<and> sim N (snd p) (snd q))
       (Option.bind (Query_loop op a2 (left + N) (right + N) (seg_identityOp a2) (seg_identityOp a2))
           (\<lambda>r. Some (r, a2)))
       (Option.bind (Query_loop op b2 (left + N) (right + N) (seg_identityOp b2) (seg_identityOp b2))
           (\<lambda>r. Some (r, b2)))"
    if "sim N a2 b2" for a2 b2
  proof -
    from that have ag: "agree a2 b2" and id: "seg_identityOp b2 = seg_identityOp a2"
      by (simp_all add: sim_def agree_def)
    have "1 \<le> left + N" using N1 by simp
    from Query_loop_agree[OF ag this, of op "right + N" "seg_identityOp a2" "seg_identityOp a2"]
    show ?thesis unfolding id using that
      by (cases "Query_loop op b2 (left + N) (right + N) (seg_identityOp a2) (seg_identityOp a2)") simp_all
  qed
  show ?thesis unfolding Query_def sa sb
    by (rule rel_bind[OF Propagate_sim[OF assms(1) p1]])
       (rule rel_bind[OF Propagate_sim[OF _ p2]], assumption, rule fin)
qed

lemma run_dense_sim:
  "sim N a b \<Longrightarrow> calls_in_bounds N cs \<Longrightarrow>
   map_option fst (run_dense op f g a cs) = map_option fst (run_dense op f g b cs)"
proof (induction cs arbitrary: a b)
  case Nil
  then show ?case by simp
next
  case (Cons c cs)
  show ?case
  proof (cases c)
    case (CQuery l r)
    with Cons.prems(2) have b: "l \<le> N" "r \<le> N" "calls_in_bounds N cs" by simp_all
    note q = Query_sim[OF Cons.prems(1) b(1,2), of op f g]
    show ?thesis
    proof (cases "Query op f g a l r")
      case None
      with q have "Query op f g b l r = None" by (cases "Query op f g b l r") simp_all
      with None CQuery show ?thesis by simp
    next
      case (Some p)
      obtain x a' where p: "p = (x, a')" by (cases p)
      from q Some p obtain b' where p': "Query op f g b l r = Some (x, b')" "sim N a' b'"
        by (cases "Query op f g b l r") auto
      from Cons.IH[OF p'(2) b(3)]
      have ih: "map_option fst (run_dense op f g a' cs) = map_option fst (run_dense op f g b' cs)" .
      have A: "map_option fst (run_dense op f g a (c # cs)) =
          map_option (\<lambda>xs. x # xs) (map_option fst (run_dense op f g a' cs))"
        using Some p CQuery by (cases "run_dense op f g a' cs") auto
      have B: "map_option fst (run_dense op f g b (c # cs)) =
          map_option (\<lambda>xs. x # xs) (map_option fst (run_dense op f g b' cs))"
        using p' CQuery by (cases "run_dense op f g b' cs") auto
      show ?thesis unfolding A B ih ..
    qed
  next
    case (CUpdate l r u)
    with Cons.prems(2) have b: "r \<le> N" "calls_in_bounds N cs" by simp_all
    note q = Update_sim[OF Cons.prems(1) b(1), of op f g l u]
    show ?thesis
    proof (cases "Update op f g a l r u")
      case None
      with q have "Update op f g b l r u = None" by (cases "Update op f g b l r u") simp_all
      with None CUpdate show ?thesis by simp
    next
      case (Some a')
      with q obtain b' where b': "Update op f g b l r u = Some b'" "sim N a' b'"
        by (cases "Update op f g b l r u") auto
      from Cons.IH[OF b'(2) b(2)] Some b' CUpdate show ?thesis by simp
    qed
  qed
qed

lemma build_loop_const:
  "length t = 2 * N \<Longrightarrow> k < N \<Longrightarrow> \<forall>i. k < i \<and> i < 2 * N \<longrightarrow> t ! i = e \<Longrightarrow> op e e = e \<Longrightarrow>
   length (build_loop op k t) = 2 * N \<and> (\<forall>i. 1 \<le> i \<and> i < 2 * N \<longrightarrow> build_loop op k t ! i = e)"
proof (induction k arbitrary: t)
  case 0
  then show ?case by simp
next
  case (Suc k)
  define t' where "t' = t[Suc k := op (t ! (2 * Suc k)) (t ! (2 * Suc k + 1))]"
  from Suc.prems have "t ! (2 * Suc k) = e" "t ! (2 * Suc k + 1) = e" by simp_all
  with Suc.prems(4) have t': "t' = t[Suc k := e]" unfolding t'_def by simp
  have len: "length t' = 2 * N" using Suc.prems(1) by (simp add: t')
  have kN: "k < N" using Suc.prems(2) by simp
  have all: "\<forall>i. k < i \<and> i < 2 * N \<longrightarrow> t' ! i = e"
  proof (intro allI impI)
    fix i assume i: "k < i \<and> i < 2 * N"
    show "t' ! i = e"
    proof (cases "i = Suc k")
      case True
      with i Suc.prems(1) show ?thesis by (simp add: t')
    next
      case False
      with i have "Suc k < i" by simp
      with i Suc.prems(3) False show ?thesis by (simp add: t')
    qed
  qed
  from Suc.IH[where t = t', OF len kN all Suc.prems(4)] show ?case
    by (simp add: t'_def)
qed

lemma bitlen_le: "1 \<le> N \<Longrightarrow> N < 2 ^ k \<Longrightarrow> bitlen N \<le> k"
proof -
  assume a: "1 \<le> N" "N < 2 ^ k"
  from bitlen_bounds[OF a(1)] have "(2::nat) ^ (bitlen N - 1) \<le> N" by (rule conjunct1)
  with a(2) have "(2::nat) ^ (bitlen N - 1) < 2 ^ k" by linarith
  then have "bitlen N - 1 < k" by (rule power_less_imp_less_exp[rotated]) simp
  then show ?thesis by simp
qed

lemma bitlen_pos: "1 \<le> N \<Longrightarrow> 1 \<le> bitlen N"
  by (simp add: bitlen.simps[of N])

lemma sim_initial:
  assumes "1 \<le> N" "N < 2 ^ 30" "op idOp idOp = idOp"
  shows "sim N (LazyPropSegtree_size N idOp idUpd)
               (LazyPropSegtree_range op dflt (replicate N idOp) idOp idUpd)"
proof -
  from bitlen_le[OF assms(1,2)] bitlen_pos[OF assms(1)]
  have b: "bitlen N \<le> 30" "1 \<le> bitlen N" .
  have len: "length (replicate N dflt @ replicate N idOp) = 2 * N" by simp
  have kN: "N - 1 < N" using assms(1) by simp
  have all: "\<forall>i. N - 1 < i \<and> i < 2 * N \<longrightarrow> (replicate N dflt @ replicate N idOp) ! i = idOp"
    by (auto simp: nth_append)
  from build_loop_const[where op = op and e = idOp, OF len kN all assms(3)]
  have bl: "length (build_loop op (N - 1) (replicate N dflt @ replicate N idOp)) = 2 * N"
    "\<And>i. 1 \<le> i \<Longrightarrow> i < 2 * N \<Longrightarrow>
       build_loop op (N - 1) (replicate N dflt @ replicate N idOp) ! i = idOp"
    by simp_all
  have ag: "agree (LazyPropSegtree_size N idOp idUpd)
               (LazyPropSegtree_range op dflt (replicate N idOp) idOp idUpd)"
    unfolding agree_def LazyPropSegtree_size_def LazyPropSegtree_range_def
    using bl by simp
  have tg: "tags_ok N (LazyPropSegtree_size N idOp idUpd)"
    unfolding tags_ok_def LazyPropSegtree_size_def by simp
  have l1: "seg_LOG (LazyPropSegtree_size N idOp idUpd) + 1 = bitlen N"
    unfolding LazyPropSegtree_size_def builtin_clz_def using b by simp
  have l2: "seg_LOG (LazyPropSegtree_range op dflt (replicate N idOp) idOp idUpd) = bitlen N"
    unfolding LazyPropSegtree_range_def builtin_clz_def using b by simp
  from ag tg l1 l2 assms(1) show ?thesis by (simp add: sim_def)
qed

subsection \<open>Calls that stay inside the vectors\<close>

lemma tree_upd_total: "i < length (seg_tree s) \<Longrightarrow> \<exists>s'. tree_upd f i v s = Some s'"
  by simp

lemma touch_total:
  "i < length (seg_tree s) \<Longrightarrow> i < length (seg_lazy s) \<Longrightarrow> \<exists>s'. touch f g i v s = Some s'"
  by (simp add: touch_Some)

lemma recalc_step_total:
  "2 * pos + 1 < length (seg_tree s) \<Longrightarrow> pos < length (seg_lazy s) \<Longrightarrow>
   \<exists>s'. recalc_step op f pos s = Some s'"
  by (simp add: recalc_step_Some)

lemma frame_lengths:
  "frame s s' \<Longrightarrow> length (seg_tree s') = length (seg_tree s) \<and> length (seg_lazy s') = length (seg_lazy s)"
  by (simp add: frame_def)

lemma push_inner_total:
  assumes tg: "tags_ok N s" and N1: "1 \<le> N" and p: "pos < 2 * N" and k: "2 \<le> k"
  shows "\<exists>s'. push_inner f g (pos div 2 ^ k) s = Some s'"
proof -
  define i where "i = pos div 2 ^ k"
  have len: "length (seg_tree s) = 2 * N" "length (seg_lazy s) = N"
    using tg by (simp_all add: tags_ok_def)
  have ik: "i * 2 ^ k \<le> pos" unfolding i_def by simp
  have "(2::nat) ^ 2 \<le> 2 ^ k" using k by (intro power_increasing) simp_all
  then have k4: "(4::nat) \<le> 2 ^ k" by simp
  then have "i * 4 \<le> i * 2 ^ k" by (rule mult_le_mono2)
  with ik p have iN: "i < N" by linarith
  have "\<exists>s'. push_inner f g i s = Some s'"
  proof (cases "seg_lazy s ! i = seg_identityUpdate s")
    case True
    with iN len have "push_inner f g i s = Some s" by (simp add: push_inner_id)
    then show ?thesis by blast
  next
    case False
    with tg iN have gd: "good N i" by (simp add: tags_ok_def)
    then obtain h where h: "1 \<le> h" "N \<le> i * 2 ^ h" "(i + 1) * 2 ^ h \<le> 2 * N"
      unfolding good_def by blast
    have i1: "1 \<le> i" using gd N1 by (rule good_pos)
    have kh: "k \<le> h"
    proof (rule ccontr)
      assume "\<not> k \<le> h"
      then have "Suc h \<le> k" by simp
      then have "(2::nat) ^ Suc h \<le> 2 ^ k" by (intro power_increasing) simp_all
      then have "i * 2 ^ Suc h \<le> i * 2 ^ k" by (rule mult_le_mono2)
      with ik p have "i * 2 ^ Suc h < 2 * N" by linarith
      moreover have "i * 2 ^ Suc h = 2 * (i * 2 ^ h)" by simp
      ultimately show False using h(2) by linarith
    qed
    then have "(2::nat) ^ k \<le> 2 ^ h" by (intro power_increasing) simp_all
    with k4 have "(4::nat) \<le> 2 ^ h" by linarith
    then have "(i + 1) * 4 \<le> (i + 1) * 2 ^ h" by (rule mult_le_mono2)
    from le_trans[OF this h(3)] have c: "2 * i + 1 < N" by simp
    have a: "2 * i + 1 < length (seg_tree s)" using c len by simp
    have b: "2 * i + 1 < length (seg_lazy s)" using c len by simp
    note push_inner_Some[OF i1 False, THEN iffD2, OF conjI[OF a conjI[OF b refl]]]
    then show ?thesis by (rule exI)
  qed
  then show ?thesis unfolding i_def .
qed

lemma Propagate_loop_total:
  "tags_ok N s \<Longrightarrow> 1 \<le> N \<Longrightarrow> pos < 2 * N \<Longrightarrow> \<exists>s'. Propagate_loop f g k pos s = Some s'"
proof (induction f g k pos s rule: Propagate_loop.induct)
  case (1 f g k pos s)
  show ?case
  proof (cases "1 < k")
    case False
    then show ?thesis by (simp add: Propagate_loop.simps[of f g k pos s])
  next
    case True
    then have "2 \<le> k" by simp
    from push_inner_total[OF "1.prems"(1,2,3) this]
    obtain s1 where s1: "push_inner f g (pos div 2 ^ k) s = Some s1" by blast
    have t1: "tags_ok N s1" using "1.prems"(1) s1 by (rule push_inner_tags)
    from "1.IH"[OF True s1 t1 "1.prems"(2,3)]
    obtain s' where "Propagate_loop f g (k - 1) pos s1 = Some s'" by blast
    with True s1 show ?thesis by (simp add: Propagate_loop.simps[of f g k pos s])
  qed
qed

lemma push_last_total:
  assumes tg: "tags_ok N s" and p: "pos < 2 * N"
  shows "\<exists>s'. push_last f (pos div 2) s = Some s'"
proof -
  define i where "i = pos div 2"
  have len: "length (seg_tree s) = 2 * N" "length (seg_lazy s) = N"
    using tg by (simp_all add: tags_ok_def)
  have iN: "i < N" unfolding i_def using p by simp
  have "\<exists>s'. push_last f i s = Some s'"
  proof (cases "seg_lazy s ! i = seg_identityUpdate s")
    case True
    with iN len have "push_last f i s = Some s" by (simp add: push_last_id)
    then show ?thesis by blast
  next
    case False
    have a: "i < length (seg_lazy s)" using iN len by simp
    have b: "2 * i + 1 < length (seg_tree s)" using iN len by simp
    note push_last_Some[OF False, THEN iffD2, OF conjI[OF a conjI[OF b refl]]]
    then show ?thesis by (rule exI)
  qed
  then show ?thesis unfolding i_def .
qed

lemma Propagate_total:
  assumes "tags_ok N s" "1 \<le> N" "pos < 2 * N"
  shows "\<exists>s'. Propagate f g pos s = Some s'"
proof -
  from Propagate_loop_total[OF assms]
  obtain s1 where s1: "Propagate_loop f g (seg_LOG s) pos s = Some s1" by blast
  have "tags_ok N s1" using assms(1) s1 by (rule Propagate_loop_tags)
  from push_last_total[OF this assms(3)]
  obtain s' where "push_last f (pos div 2) s1 = Some s'" by blast
  with s1 show ?thesis by (simp add: Propagate_def)
qed

lemma next_right_le: "(if (r::nat) mod 2 = 1 then r - 1 else r) div 2 \<le> r"
  by (cases "r mod 2 = 1"; simp; arith)

lemma Query_loop_total:
  "right \<le> length (seg_tree s) \<Longrightarrow> \<exists>x. Query_loop op s left right a b = Some x"
proof (induction op s left right a b rule: Query_loop.induct)
  case (1 op s left right a b)
  show ?case
  proof (cases "left < right")
    case False
    then show ?thesis by (simp add: Query_loop.simps[of op s left right])
  next
    case True
    have l: "left < length (seg_tree s)" and r: "right - 1 < length (seg_tree s)"
      using True "1.prems" by simp_all
    define lres where "lres = (if left mod 2 = 1 then op a (seg_tree s ! left) else a)"
    define rres where "rres = (if right mod 2 = 1 then op (seg_tree s ! (right - 1)) b else b)"
    have e1: "(if left mod 2 = 1 then map_option (op a) (tree_at s left) else Some a) = Some lres"
      using l by (simp add: lres_def tree_at_def)
    have e2: "(if right mod 2 = 1 then map_option (\<lambda>t. op t b) (tree_at s (right - 1)) else Some b)
              = Some rres"
      using r by (simp add: rres_def tree_at_def)
    have R: "(if right mod 2 = 1 then right - 1 else right) div 2 \<le> length (seg_tree s)"
      using next_right_le[of right] "1.prems" by linarith
    from "1.IH"[OF True e1 e2 R]
    obtain x where "Query_loop op s ((if left mod 2 = 1 then left + 1 else left) div 2)
        ((if right mod 2 = 1 then right - 1 else right) div 2) lres rres = Some x" by blast
    with True e1 e2 show ?thesis by (simp add: Query_loop.simps[of op s left right a b])
  qed
qed

lemma Query_total:
  assumes tg: "tags_ok N s" and N1: "1 \<le> N" and lr: "left < N" "right \<le> N"
  shows "\<exists>x s'. Query op f g s left right = Some (x, s')"
proof -
  have sz: "seg_size s = N" using tg by (simp add: tags_ok_def)
  have p1: "left + N < 2 * N" using lr by simp
  have p2: "right + N - 1 < 2 * N" using lr N1 by simp
  from Propagate_total[OF tg N1 p1]
  obtain s1 where s1: "Propagate f g (left + N) s = Some s1" by blast
  have t1: "tags_ok N s1" using tg s1 by (rule Propagate_tags)
  from Propagate_total[OF t1 N1 p2]
  obtain s2 where s2: "Propagate f g (right + N - 1) s1 = Some s2" by blast
  have t2: "tags_ok N s2" using t1 s2 by (rule Propagate_tags)
  then have "right + N \<le> length (seg_tree s2)" using lr by (simp add: tags_ok_def)
  from Query_loop_total[OF this]
  obtain x where "Query_loop op s2 (left + N) (right + N) (seg_identityOp s2) (seg_identityOp s2)
     = Some x" by blast
  with s1 s2 show ?thesis by (simp add: Query_def sz)
qed

lemma Update_leaves_total:
  assumes "l < length (seg_tree s)" "r \<le> length (seg_tree s)"
  shows "\<exists>s'. Update_leaves f v l r s = Some s'"
proof -
  have "l < length (seg_tree s)" using assms by simp
  then have "\<exists>s1. (if l mod 2 = 1 then tree_upd f l v s else Some s) = Some s1"
    using tree_upd_total[of l s f v] by simp
  then obtain s1 where s1: "(if l mod 2 = 1 then tree_upd f l v s else Some s) = Some s1" by blast
  then have "frame s s1" by (auto split: if_splits intro: tree_upd_frame)
  then have "length (seg_tree s1) = length (seg_tree s)" by (simp add: frame_def)
  then have "r - 1 < length (seg_tree s1)" using assms by linarith
  then have "\<exists>s'. (if r mod 2 = 1 then tree_upd f (r - 1) v s1 else Some s1) = Some s'"
    using tree_upd_total[of "r - 1" s1 f v] by simp
  with s1 show ?thesis by (simp add: Update_leaves_def)
qed

lemma Update_loop_total:
  "length (seg_tree s) = 2 * N \<Longrightarrow> length (seg_lazy s) = N \<Longrightarrow> right \<le> N \<Longrightarrow>
   \<exists>s'. Update_loop f g v left right s = Some s'"
proof (induction f g v left right s rule: Update_loop.induct)
  case (1 f g v left right s)
  show ?case
  proof (cases "left < right")
    case False
    then show ?thesis by (simp add: Update_loop.simps[of f g v left right s])
  next
    case True
    have "left < length (seg_tree s)" "left < length (seg_lazy s)"
      using True "1.prems" by simp_all
    then have "\<exists>s1. (if left mod 2 = 1 then touch f g left v s else Some s) = Some s1"
      using touch_total[of left s f g v] by simp
    then obtain s1 where s1: "(if left mod 2 = 1 then touch f g left v s else Some s) = Some s1"
      by blast
    then have f1: "frame s s1" by (auto split: if_splits intro: touch_frame)
    then have len1: "length (seg_tree s1) = 2 * N" "length (seg_lazy s1) = N"
      using "1.prems" by (simp_all add: frame_def)
    have "right - 1 < length (seg_tree s1)" "right - 1 < length (seg_lazy s1)"
      using True "1.prems"(3) len1 by simp_all
    then have "\<exists>s2. (if right mod 2 = 1 then touch f g (right - 1) v s1 else Some s1) = Some s2"
      using touch_total[of "right - 1" s1 f g v] by simp
    then obtain s2 where
      s2: "(if right mod 2 = 1 then touch f g (right - 1) v s1 else Some s1) = Some s2" by blast
    then have f2: "frame s1 s2" by (auto split: if_splits intro: touch_frame)
    then have len2: "length (seg_tree s2) = 2 * N" "length (seg_lazy s2) = N"
      using len1 by (simp_all add: frame_def)
    have R: "(if right mod 2 = 1 then right - 1 else right) div 2 \<le> N"
      using next_right_le[of right] "1.prems"(3) by linarith
    from "1.IH"[OF True s1 s2 len2 R]
    obtain s' where "Update_loop f g v ((if left mod 2 = 1 then left + 1 else left) div 2)
        ((if right mod 2 = 1 then right - 1 else right) div 2) s2 = Some s'" by blast
    with True s1 s2 show ?thesis by (simp add: Update_loop.simps[of f g v left right s])
  qed
qed

lemma recalculate_loop_total:
  "length (seg_tree s) = 2 * N \<Longrightarrow> length (seg_lazy s) = N \<Longrightarrow> pos < N \<Longrightarrow>
   \<exists>s'. recalculate_loop op f pos s = Some s'"
proof (induction op f pos s rule: recalculate_loop.induct)
  case (1 op f pos s)
  show ?case
  proof (cases "0 < pos")
    case False
    then have "recalculate_loop op f pos s = Some s" by (subst recalculate_loop.simps) simp
    then show ?thesis by blast
  next
    case True
    have "2 * pos + 1 < length (seg_tree s)" "pos < length (seg_lazy s)"
      using "1.prems" by simp_all
    from recalc_step_total[OF this]
    obtain s1 where s1: "recalc_step op f pos s = Some s1" by blast
    from recalc_step_frame[OF s1] have len1: "length (seg_tree s1) = 2 * N" "length (seg_lazy s1) = N"
      using "1.prems" by (simp_all add: frame_def)
    have "pos div 2 < N" using "1.prems"(3) by simp
    from "1.IH"[OF True s1 len1 this]
    obtain s' where "recalculate_loop op f (pos div 2) s1 = Some s'" by blast
    with True s1 show ?thesis by (simp add: recalculate_loop.simps[of op f pos s])
  qed
qed

lemma Update_total:
  assumes tg: "tags_ok N s" and lr: "left < N" "right \<le> N"
  shows "\<exists>s'. Update op f g s left right v = Some s'"
proof -
  have sz: "seg_size s = N" and len: "length (seg_tree s) = 2 * N" "length (seg_lazy s) = N"
    using tg by (simp_all add: tags_ok_def)
  define l where "l = left + N"
  define r where "r = right + N"
  define L where "L = (if l mod 2 = 1 then l + 1 else l) div 2"
  define R where "R = (if r mod 2 = 1 then r - 1 else r) div 2"
  have lr': "l < 2 * N" "r \<le> 2 * N" "1 \<le> r" unfolding l_def r_def using lr by simp_all
  from Update_leaves_total[where l = l and r = r and s = s] lr' len
  obtain s1 where s1: "Update_leaves f v l r s = Some s1" by auto
  from Update_leaves_frame[OF s1] len
  have len1: "length (seg_tree s1) = 2 * N" "length (seg_lazy s1) = N" by (simp_all add: frame_def)
  have "R \<le> N" unfolding R_def using lr'(2) by (cases "r mod 2 = 1"; simp; arith)
  from Update_loop_total[OF len1 this]
  obtain s2 where s2: "Update_loop f g v L R s1 = Some s2" by blast
  from Update_loop_frame[OF s2] len1
  have len2: "length (seg_tree s2) = 2 * N" "length (seg_lazy s2) = N" by (simp_all add: frame_def)
  have "l div 2 < N" using lr' by simp
  from recalculate_loop_total[OF len2 this]
  obtain s3 where s3: "recalculate_loop op f (l div 2) s2 = Some s3" by blast
  from recalculate_loop_frame[OF s3] len2
  have len3: "length (seg_tree s3) = 2 * N" "length (seg_lazy s3) = N" by (simp_all add: frame_def)
  have "(r - 1) div 2 < N" using lr' by arith
  from recalculate_loop_total[OF len3 this]
  obtain s' where s': "recalculate_loop op f ((r - 1) div 2) s3 = Some s'" by blast
  show ?thesis
    unfolding Update_def Let_def sz recalculate_after_update_def
    using s1 s2 s3 s' unfolding l_def r_def L_def R_def by simp
qed

lemma run_dense_total:
  "tags_ok N s \<Longrightarrow> 1 \<le> N \<Longrightarrow> calls_inside N cs \<Longrightarrow>
   \<exists>res s'. run_dense op f g s cs = Some (res, s')"
proof (induction cs arbitrary: s)
  case Nil
  then show ?case by simp
next
  case (Cons c cs)
  show ?case
  proof (cases c)
    case (CQuery l r)
    with Cons.prems(3) have lr: "l < N" "r \<le> N" and rest: "calls_inside N cs" by simp_all
    from Query_total[OF Cons.prems(1,2) lr]
    obtain x s1 where q: "Query op f g s l r = Some (x, s1)" by blast
    have "tags_ok N s1" using Cons.prems(1) q by (rule Query_tags)
    from Cons.IH[OF this Cons.prems(2) rest]
    obtain xs s' where "run_dense op f g s1 cs = Some (xs, s')" by blast
    with q CQuery show ?thesis by simp
  next
    case (CUpdate l r v)
    with Cons.prems(3) have lr: "l < N" "r \<le> N" and rest: "calls_inside N cs" by simp_all
    from Update_total[OF Cons.prems(1) lr]
    obtain s1 where u: "Update op f g s l r v = Some s1" by blast
    have "tags_ok N s1" using Cons.prems(1) lr(2) u by (rule Update_tags)
    from Cons.IH[OF this Cons.prems(2) rest]
    obtain xs s' where "run_dense op f g s1 cs = Some (xs, s')" by blast
    with u CUpdate show ?thesis by simp
  qed
qed

lemma calls_inside_in_bounds: "calls_inside N cs \<Longrightarrow> calls_in_bounds N cs"
  by (induction N cs rule: calls_inside.induct) simp_all

lemma calls_nonempty_inside: "calls_nonempty N cs \<Longrightarrow> calls_inside N cs"
  by (induction N cs rule: calls_nonempty.induct) simp_all

text \<open>
  C10, as the claim states it, covers the calls with \<^verbatim>\<open>left = right = N\<close>, which the
  README's bounds allow. There neither tree yields a result: on five elements
  \<^verbatim>\<open>Query(5, 5)\<close> reads \<^verbatim>\<open>lazy_[5]\<close> behind the end of the vector, and on six elements
  \<^verbatim>\<open>Update(6, 6, 1)\<close> reads \<^verbatim>\<open>tree_[12]\<close> in \<^verbatim>\<open>recalculate_after_update\<close>, whichever
  constructor built the tree.
\<close>

theorem C10_call_at_end_leaves_vectors:
  "calls_in_bounds 5 [CQuery 5 5 :: int call]
   \<and> run_dense max (+) (+) (LazyPropSegtree_size 5 (0::int) (0::int)) [CQuery 5 5] = None
   \<and> run_dense max (+) (+) (LazyPropSegtree_range max 7 (replicate 5 0) (0::int) (0::int))
        [CQuery 5 5] = None
   \<and> calls_in_bounds 6 [CUpdate 6 6 (1::int), CQuery 0 6]
   \<and> run_dense max (+) (+) (LazyPropSegtree_size 6 (0::int) (0::int))
        [CUpdate 6 6 1, CQuery 0 6] = None
   \<and> run_dense max (+) (+) (LazyPropSegtree_range max 7 (replicate 6 0) (0::int) (0::int))
        [CUpdate 6 6 1, CQuery 0 6] = None"
  by (simp add: dense_defs)

text \<open>
  C10, amended: for every size \<open>1 \<le> N < 2^30\<close> and every algebra with
  \<open>op idOp idOp = idOp\<close>, on every sequence of calls with
  \<^verbatim>\<open>0 <= left <= right <= N\<close> and \<^verbatim>\<open>left < N\<close> the tree built by the size constructor
  and the tree built by the iterator constructor from \<open>N\<close> copies of \<^verbatim>\<open>idOp\<close> both
  stay inside their vectors, return from every call, and give the same list of query
  results, whatever \<^verbatim>\<open>T()\<close> is. The two differ in \<^verbatim>\<open>tree_[0]\<close>, which no query reads,
  and in \<^verbatim>\<open>LOG_\<close>: the extra round of \<^verbatim>\<open>Propagate\<close> visits node 0 or, when \<open>N\<close> is
  not a power of two, the root, and neither ever holds a tag.
\<close>

theorem C10_constructors_equivalent:
  assumes "1 \<le> N" "N < 2 ^ 30" "op idOp idOp = idOp" "calls_inside N cs"
  shows "\<exists>res a b.
           run_dense op updVal updLazy (LazyPropSegtree_size N idOp idUpd) cs = Some (res, a)
           \<and> run_dense op updVal updLazy
                 (LazyPropSegtree_range op dflt (replicate N idOp) idOp idUpd) cs = Some (res, b)"
proof -
  define A :: "('a, 'b) LazyPropSegtree" where "A = LazyPropSegtree_size N idOp idUpd"
  define B where "B = LazyPropSegtree_range op dflt (replicate N idOp) idOp idUpd"
  have sm: "sim N A B"
    unfolding A_def B_def by (rule sim_initial[where op = op and idOp = idOp, OF assms(1-3)])
  then have tg: "tags_ok N A" by (simp add: sim_def)
  from run_dense_total[OF tg assms(1,4)]
  obtain res a where ra: "run_dense op updVal updLazy A cs = Some (res, a)" by blast
  have "map_option fst (run_dense op updVal updLazy A cs)
      = map_option fst (run_dense op updVal updLazy B cs)"
    using sm calls_inside_in_bounds[OF assms(4)] by (rule run_dense_sim)
  with ra have "map_option fst (run_dense op updVal updLazy B cs) = Some res" by simp
  then obtain b where "run_dense op updVal updLazy B cs = Some (res, b)" by auto
  with ra show ?thesis unfolding A_def B_def by blast
qed

text \<open>
  An instance: maximum and addition on five elements, with an empty range among the
  calls.
\<close>

theorem C10_witness:
  "(\<exists>res a b.
      run_dense max (+) (+) (LazyPropSegtree_size 5 (0::int) (0::int))
        [CUpdate 1 4 10, CQuery 1 4, CQuery 2 2, CQuery 0 5, CQuery 4 5] = Some (res, a)
      \<and> run_dense max (+) (+) (LazyPropSegtree_range max 7 (replicate 5 0) (0::int) (0::int))
        [CUpdate 1 4 10, CQuery 1 4, CQuery 2 2, CQuery 0 5, CQuery 4 5] = Some (res, b))
   \<and> map_option fst (run_dense max (+) (+) (LazyPropSegtree_size 5 (0::int) (0::int))
       [CUpdate 1 4 10, CQuery 1 4, CQuery 2 2, CQuery 0 5, CQuery 4 5])
      = Some [10, 0, 10, 0]"
proof
  show "\<exists>res a b.
      run_dense max (+) (+) (LazyPropSegtree_size 5 (0::int) (0::int))
        [CUpdate 1 4 10, CQuery 1 4, CQuery 2 2, CQuery 0 5, CQuery 4 5] = Some (res, a)
      \<and> run_dense max (+) (+) (LazyPropSegtree_range max 7 (replicate 5 0) (0::int) (0::int))
        [CUpdate 1 4 10, CQuery 1 4, CQuery 2 2, CQuery 0 5, CQuery 4 5] = Some (res, b)"
    by (rule C10_constructors_equivalent) simp_all
  show "map_option fst (run_dense max (+) (+) (LazyPropSegtree_size 5 (0::int) (0::int))
       [CUpdate 1 4 10, CQuery 1 4, CQuery 2 2, CQuery 0 5, CQuery 4 5])
      = Some [10, 0, 10, 0]"
    by code_simp
qed


section \<open>The dense tree: each node against its children and its own tag\<close>

subsection \<open>Ancestors\<close>

lemma chain_self: "p \<in> chain p"
  unfolding chain_def by (rule CollectI, rule exI[of _ 0]) simp

lemma chain_step: "chain p = insert p (chain (p div 2))"
proof (rule set_eqI)
  fix x
  show "x \<in> chain p \<longleftrightarrow> x \<in> insert p (chain (p div 2))"
  proof
    assume "x \<in> chain p"
    then obtain k where k: "x = p div 2 ^ k" by (auto simp: chain_def)
    show "x \<in> insert p (chain (p div 2))"
    proof (cases k)
      case 0
      with k show ?thesis by simp
    next
      case (Suc j)
      with k have "x = (p div 2) div 2 ^ j" by (simp add: div_mult2_eq)
      then show ?thesis by (auto simp: chain_def)
    qed
  next
    assume "x \<in> insert p (chain (p div 2))"
    then consider "x = p" | "x \<in> chain (p div 2)" by blast
    then show "x \<in> chain p"
    proof cases
      case 1
      then show ?thesis by (simp add: chain_self)
    next
      case 2
      then obtain j where "x = (p div 2) div 2 ^ j" by (auto simp: chain_def)
      then have "x = p div 2 ^ Suc j" by (simp add: div_mult2_eq)
      then show ?thesis unfolding chain_def by blast
    qed
  qed
qed

lemma chain_div: "x \<in> chain p \<Longrightarrow> x div 2 \<in> chain p"
proof -
  assume "x \<in> chain p"
  then obtain k where "x = p div 2 ^ k" by (auto simp: chain_def)
  then have "x div 2 = p div (2 ^ k * 2)" by (simp only: div_mult2_eq)
  then have "x div 2 = p div 2 ^ Suc k" by (simp add: mult.commute)
  then show ?thesis unfolding chain_def by blast
qed

lemma node_inv_cong:
  assumes "node_inv op f s i"
    "seg_tree s' ! i = seg_tree s ! i" "seg_tree s' ! (2 * i) = seg_tree s ! (2 * i)"
    "seg_tree s' ! (2 * i + 1) = seg_tree s ! (2 * i + 1)" "seg_lazy s' ! i = seg_lazy s ! i"
  shows "node_inv op f s' i"
  using assms by (simp add: node_inv_def)

subsection \<open>Single writes\<close>

lemma linv_exceptI:
  "(\<And>i. 1 \<le> i \<Longrightarrow> i < N \<Longrightarrow> i \<notin> B \<Longrightarrow> node_inv op f s i) \<Longrightarrow> linv_except op f N B s"
  by (simp add: linv_except_def)

lemma linv_exceptD:
  "linv_except op f N B s \<Longrightarrow> 1 \<le> i \<Longrightarrow> i < N \<Longrightarrow> i \<notin> B \<Longrightarrow> node_inv op f s i"
  by (simp add: linv_except_def)

text \<open>A write to the tree at x disturbs only node x and its parent.\<close>

lemma tree_write_linv:
  assumes "linv_except op f N B s" "x div 2 \<in> B \<or> x div 2 = 0" "x \<in> B \<or> N \<le> x"
  shows "linv_except op f N B (s\<lparr>seg_tree := (seg_tree s)[x := y]\<rparr>)"
proof (rule linv_exceptI)
  fix i assume i: "1 \<le> i" "i < N" "i \<notin> B"
  from assms(2) i have p: "i \<noteq> x div 2" by auto
  from assms(3) i have q: "i \<noteq> x" by auto
  from p have "2 * i \<noteq> x" "2 * i + 1 \<noteq> x" by auto
  with q show "node_inv op f (s\<lparr>seg_tree := (seg_tree s)[x := y]\<rparr>) i"
    using linv_exceptD[OF assms(1) i] by (simp add: node_inv_def)
qed

lemma tree_upd_leaf_linv:
  assumes "linv_except op f N B s" "x div 2 \<in> B" "N \<le> x" "tree_upd f x v s = Some s'"
  shows "linv_except op f N B s'"
proof -
  from assms(4) have s': "s' = s\<lparr>seg_tree := (seg_tree s)[x := f (seg_tree s ! x) v]\<rparr>" by simp
  show ?thesis unfolding s' using assms(1-3) by (intro tree_write_linv) simp_all
qed

lemma touch_linv:
  assumes "linv_except op f N B s" "x div 2 \<in> B \<or> x div 2 = 0" "1 \<le> x"
    and law: "\<And>t u1 u2. f (f t u1) u2 = f t (g u1 u2)"
    and "touch f g x v s = Some s'"
  shows "linv_except op f N B s'"
proof (rule linv_exceptI)
  fix i assume i: "1 \<le> i" "i < N" "i \<notin> B"
  from assms(5) have b: "x < length (seg_tree s)" "x < length (seg_lazy s)"
    and s': "s' = s\<lparr>seg_tree := (seg_tree s)[x := f (seg_tree s ! x) v],
            seg_lazy := (seg_lazy s)[x := g (seg_lazy s ! x) v]\<rparr>"
    by (simp_all add: touch_Some)
  note inv = linv_exceptD[OF assms(1) i]
  from assms(2) i have p: "i \<noteq> x div 2" by auto
  then have c: "2 * i \<noteq> x" "2 * i + 1 \<noteq> x" by auto
  show "node_inv op f s' i"
  proof (cases "i = x")
    case True
    from assms(3) have "2 * x \<noteq> x" "2 * x + 1 \<noteq> x" by auto
    with True inv b show ?thesis unfolding s' by (simp add: node_inv_def law)
  next
    case False
    with c inv show ?thesis unfolding s' by (simp add: node_inv_def)
  qed
qed

lemma recalc_step_linv:
  assumes "linv_except op f N B s" "1 \<le> p" "recalc_step op f p s = Some s'"
  shows "linv_except op f N (insert (p div 2) (B - {p})) s'"
proof (rule linv_exceptI)
  fix i assume i: "1 \<le> i" "i < N" "i \<notin> insert (p div 2) (B - {p})"
  from assms(3) have b: "2 * p + 1 < length (seg_tree s)"
    and s': "s' = s\<lparr>seg_tree := (seg_tree s)[p :=
             f (op (seg_tree s ! (2 * p)) (seg_tree s ! (2 * p + 1))) (seg_lazy s ! p)]\<rparr>"
    by (simp_all add: recalc_step_Some)
  from i(3) have ip: "i \<noteq> p div 2" by simp
  then have c: "2 * i \<noteq> p" "2 * i + 1 \<noteq> p" by auto
  show "node_inv op f s' i"
  proof (cases "i = p")
    case True
    from assms(2) have "2 * p \<noteq> p" "2 * p + 1 \<noteq> p" by auto
    with True b show ?thesis unfolding s' by (simp add: node_inv_def)
  next
    case False
    with i(3) have "i \<notin> B" by simp
    from linv_exceptD[OF assms(1) i(1,2) this] False c show ?thesis
      unfolding s' by (simp add: node_inv_def)
  qed
qed

lemma linv_except_mono: "linv_except op f N B s \<Longrightarrow> B \<subseteq> B' \<Longrightarrow> linv_except op f N B' s"
  unfolding linv_except_def by blast

lemma linv_except_zero: "linv_except op f N (insert 0 B) s \<Longrightarrow> linv_except op f N B s"
  unfolding linv_except_def by auto

lemma recalculate_loop_linv:
  "linv_except op f N B s \<Longrightarrow> recalculate_loop op f p s = Some s' \<Longrightarrow>
   linv_except op f N (B - chain p) s'"
proof (induction op f p s arbitrary: B rule: recalculate_loop.induct)
  case (1 op f p s)
  show ?case
  proof (cases "0 < p")
    case False
    then have p0: "p = 0" by simp
    with "1.prems" have "s' = s" by (simp add: recalculate_loop.simps[of op f 0])
    moreover have "linv_except op f N (B - chain p) s"
      using "1.prems"(1) unfolding linv_except_def p0 using chain_self[of 0]
      by (auto simp: chain_def)
    ultimately show ?thesis by simp
  next
    case True
    with "1.prems"(2) obtain s1 where
      a: "recalc_step op f p s = Some s1"
      and b: "recalculate_loop op f (p div 2) s1 = Some s'"
      by (auto simp: recalculate_loop.simps[of op f p] split: option.splits)
    from True have p1: "1 \<le> p" by simp
    from recalc_step_linv[OF "1.prems"(1) p1 a]
    have "linv_except op f N (insert (p div 2) (B - {p})) s1" .
    from "1.IH"[OF True a this b]
    have "linv_except op f N (insert (p div 2) (B - {p}) - chain (p div 2)) s'" .
    moreover have "insert (p div 2) (B - {p}) - chain (p div 2) \<subseteq> B - chain p"
      using chain_self[of "p div 2"] by (subst chain_step[of p]) auto
    ultimately show ?thesis by (rule linv_except_mono)
  qed
qed

subsection \<open>Propagate and Query\<close>

lemma nth_upd2:
  "a < length xs \<Longrightarrow> b < length xs \<Longrightarrow>
   (xs[a := x, b := y]) ! j = (if j = b then y else if j = a then x else xs ! j)"
  by (simp add: nth_list_update)

lemma nth_upd3:
  "a < length xs \<Longrightarrow> b < length xs \<Longrightarrow> c < length xs \<Longrightarrow>
   (xs[a := x, b := y, c := z]) ! j =
     (if j = c then z else if j = b then y else if j = a then x else xs ! j)"
  by (simp add: nth_list_update)

lemma push_inner_linv:
  assumes tg: "tags_ok N s" and inv: "linv_except op f N {} s"
    and ident: "\<And>t. f t (seg_identityUpdate s) = t"
    and distrib: "\<And>a b u. f (op a b) u = op (f a u) (f b u)"
    and compat: "\<And>t u1 u2. f (f t u1) u2 = f t (g u1 u2)"
    and run: "push_inner f g i s = Some s'"
  shows "linv_except op f N {} s'"
proof -
  have in_b: "i < length (seg_lazy s)"
    using run by (cases "i < length (seg_lazy s)") (simp_all add: push_inner_oob)
  show ?thesis
  proof (cases "seg_lazy s ! i = seg_identityUpdate s")
    case True
    with in_b run inv show ?thesis by (simp add: push_inner_id)
  next
    case False
    from tg in_b have iN: "i < N" by (simp add: tags_ok_def)
    with False tg have gd: "good N i" by (simp add: tags_ok_def)
    from good_pos[OF gd] iN have i1: "1 \<le> i" by simp
    define T where "T = seg_tree s"
    define L where "L = seg_lazy s"
    define lz where "lz = L ! i"
    define T' where "T' = T[2 * i := f (T ! (2 * i)) lz, 2 * i + 1 := f (T ! (2 * i + 1)) lz]"
    define L' where "L' = L[2 * i := g (L ! (2 * i)) lz, 2 * i + 1 := g (L ! (2 * i + 1)) lz,
                           i := seg_identityUpdate s]"
    note ch = run[unfolded push_inner_Some[OF i1 False]]
    from ch have bt: "2 * i + 1 < length T" unfolding T_def by (rule conjunct1)
    from ch have bl: "2 * i + 1 < length L" unfolding L_def by (rule conjunct2[THEN conjunct1])
    from ch have s': "s' = s\<lparr>seg_tree := T', seg_lazy := L'\<rparr>"
      unfolding T'_def L'_def T_def L_def lz_def by (rule conjunct2[THEN conjunct2])
    have st: "seg_tree s' = T'" and sl: "seg_lazy s' = L'" unfolding s' by simp_all
    have Tn: "T' ! j = (if j = 2 * i + 1 then f (T ! (2 * i + 1)) lz
                        else if j = 2 * i then f (T ! (2 * i)) lz else T ! j)" for j
      unfolding T'_def using bt by (simp add: nth_upd2)
    have Ln: "L' ! j = (if j = i then seg_identityUpdate s
                        else if j = 2 * i + 1 then g (L ! (2 * i + 1)) lz
                        else if j = 2 * i then g (L ! (2 * i)) lz else L ! j)" for j
      unfolding L'_def using bl by (simp add: nth_upd3)
    from tg bl have c2N: "2 * i + 1 < N" by (simp add: tags_ok_def L_def)
    have old: "T ! j = f (op (T ! (2 * j)) (T ! (2 * j + 1))) (L ! j)" if "1 \<le> j" "j < N" for j
      using linv_exceptD[OF inv that] by (simp add: node_inv_def T_def L_def)
    show ?thesis
    proof (rule linv_exceptI)
      fix j assume j: "1 \<le> j" "j < N" "j \<notin> {}"
      consider "j = i" | "j = 2 * i" | "j = 2 * i + 1" | "j \<noteq> i" "j \<noteq> 2 * i" "j \<noteq> 2 * i + 1"
        by blast
      then show "node_inv op f s' j"
      proof cases
        case 1
        have "T ! i = f (op (T ! (2 * i)) (T ! (2 * i + 1))) lz"
          using old[OF i1 iN] by (simp add: lz_def)
        also have "\<dots> = op (f (T ! (2 * i)) lz) (f (T ! (2 * i + 1)) lz)" by (rule distrib)
        finally show ?thesis unfolding node_inv_def st sl 1 using i1
          by (simp add: Tn Ln ident)
      next
        case 2
        have j2: "2 * i < N" using c2N by simp
        have "1 \<le> 2 * i" using i1 by simp
        from old[OF this j2]
        have "f (T ! (2 * i)) lz = f (f (op (T ! (2 * (2 * i))) (T ! (2 * (2 * i) + 1))) (L ! (2 * i))) lz"
          by simp
        also have "\<dots> = f (op (T ! (2 * (2 * i))) (T ! (2 * (2 * i) + 1))) (g (L ! (2 * i)) lz)"
          by (rule compat)
        finally show ?thesis unfolding node_inv_def st sl 2 using i1
          by (simp add: Tn Ln)
      next
        case 3
        have "1 \<le> 2 * i + 1" by simp
        from old[OF this c2N]
        have "f (T ! (2 * i + 1)) lz =
            f (f (op (T ! (2 * (2 * i + 1))) (T ! (2 * (2 * i + 1) + 1))) (L ! (2 * i + 1))) lz"
          by simp
        also have "\<dots> = f (op (T ! (2 * (2 * i + 1))) (T ! (2 * (2 * i + 1) + 1))) (g (L ! (2 * i + 1)) lz)"
          by (rule compat)
        finally show ?thesis unfolding node_inv_def st sl 3 using i1
          by (simp add: Tn Ln)
      next
        case 4
        from 4(1) have "2 * j \<noteq> 2 * i" "2 * j \<noteq> 2 * i + 1" "2 * j + 1 \<noteq> 2 * i + 1" "2 * j + 1 \<noteq> 2 * i"
          by presburger+
        with 4 old[OF j(1,2)] show ?thesis unfolding node_inv_def st sl
          by (simp add: Tn Ln)
      qed
    qed
  qed
qed

lemma good_leaf_parent:
  assumes "good N p" "N \<le> pos" "p = pos div 2"
  shows "N \<le> 2 * p"
proof -
  from assms(1) obtain h where h: "1 \<le> h" "N \<le> p * 2 ^ h" "(p + 1) * 2 ^ h \<le> 2 * N"
    by (auto simp: good_def)
  show ?thesis
  proof (cases "h = 1")
    case True
    with h(2) show ?thesis by (simp add: mult.commute)
  next
    case False
    with h(1) have "2 \<le> h" by simp
    then have "(2::nat) ^ 2 \<le> 2 ^ h" by (intro power_increasing) simp_all
    then have "(4::nat) \<le> 2 ^ h" by simp
    then have "(p + 1) * 4 \<le> (p + 1) * 2 ^ h" by (rule mult_le_mono2)
    with h(3) have "(p + 1) * 4 \<le> 2 * N" by linarith
    then have "2 * p + 2 \<le> N" by simp
    moreover have "pos \<le> 2 * p + 1" unfolding assms(3) by presburger
    ultimately show ?thesis using assms(2) by simp
  qed
qed

lemma push_last_linv:
  assumes tg: "tags_ok N s" and inv: "linv_except op f N {} s"
    and ident: "\<And>t. f t (seg_identityUpdate s) = t"
    and distrib: "\<And>a b u. f (op a b) u = op (f a u) (f b u)"
    and pos: "N \<le> pos"
    and run: "push_last f (pos div 2) s = Some s'"
  shows "linv_except op f N {} s'"
proof -
  define p where "p = pos div 2"
  have in_b: "p < length (seg_lazy s)"
    using run unfolding p_def
    by (cases "pos div 2 < length (seg_lazy s)") (simp_all add: push_last_oob)
  show ?thesis
  proof (cases "seg_lazy s ! p = seg_identityUpdate s")
    case True
    with in_b run inv show ?thesis unfolding p_def by (simp add: push_last_id)
  next
    case False
    from tg in_b have pN: "p < N" by (simp add: tags_ok_def)
    with False tg have gd: "good N p" by (simp add: tags_ok_def)
    from good_pos[OF gd] pN have p1: "1 \<le> p" by simp
    from good_leaf_parent[OF gd pos p_def] have leaf: "N \<le> 2 * p" .
    define T where "T = seg_tree s"
    define L where "L = seg_lazy s"
    define lz where "lz = L ! p"
    define T' where "T' = T[2 * p := f (T ! (2 * p)) lz, 2 * p + 1 := f (T ! (2 * p + 1)) lz]"
    define L' where "L' = L[p := seg_identityUpdate s]"
    note ch = run[folded p_def, unfolded push_last_Some[OF False]]
    from ch have bt: "2 * p + 1 < length T" unfolding T_def by (rule conjunct2[THEN conjunct1])
    from ch have s': "s' = s\<lparr>seg_tree := T', seg_lazy := L'\<rparr>"
      unfolding T'_def L'_def T_def L_def lz_def by (rule conjunct2[THEN conjunct2])
    have st: "seg_tree s' = T'" and sl: "seg_lazy s' = L'" unfolding s' by simp_all
    have Tn: "T' ! j = (if j = 2 * p + 1 then f (T ! (2 * p + 1)) lz
                        else if j = 2 * p then f (T ! (2 * p)) lz else T ! j)" for j
      unfolding T'_def using bt by (simp add: nth_upd2)
    have Ln: "L' ! j = (if j = p then seg_identityUpdate s else L ! j)" for j
      unfolding L'_def using in_b by (simp add: nth_list_update L_def)
    have old: "T ! j = f (op (T ! (2 * j)) (T ! (2 * j + 1))) (L ! j)" if "1 \<le> j" "j < N" for j
      using linv_exceptD[OF inv that] by (simp add: node_inv_def T_def L_def)
    show ?thesis
    proof (rule linv_exceptI)
      fix j assume j: "1 \<le> j" "j < N" "j \<notin> {}"
      show "node_inv op f s' j"
      proof (cases "j = p")
        case True
        have "T ! p = f (op (T ! (2 * p)) (T ! (2 * p + 1))) lz"
          using old[OF p1 pN] by (simp add: lz_def)
        also have "\<dots> = op (f (T ! (2 * p)) lz) (f (T ! (2 * p + 1)) lz)" by (rule distrib)
        finally show ?thesis unfolding node_inv_def st sl True using p1
          by (simp add: Tn Ln ident)
      next
        case False
        then have "2 * j \<noteq> 2 * p" "2 * j \<noteq> 2 * p + 1" "2 * j + 1 \<noteq> 2 * p + 1" "2 * j + 1 \<noteq> 2 * p"
          by presburger+
        moreover from j(2) leaf have "j \<noteq> 2 * p" "j \<noteq> 2 * p + 1" by simp_all
        ultimately show ?thesis using False old[OF j(1,2)] unfolding node_inv_def st sl
          by (simp add: Tn Ln)
      qed
    qed
  qed
qed

lemma frame_idUpd: "frame s s' \<Longrightarrow> seg_identityUpdate s' = seg_identityUpdate s"
  by (simp add: frame_def)

lemma Propagate_loop_linv:
  "tags_ok N s \<Longrightarrow> linv_except op f N {} s \<Longrightarrow> (\<And>t. f t (seg_identityUpdate s) = t) \<Longrightarrow>
   (\<And>a b u. f (op a b) u = op (f a u) (f b u)) \<Longrightarrow> (\<And>t u1 u2. f (f t u1) u2 = f t (g u1 u2)) \<Longrightarrow>
   Propagate_loop f g k pos s = Some s' \<Longrightarrow> linv_except op f N {} s'"
proof (induction f g k pos s rule: Propagate_loop.induct)
  case (1 f g k pos s)
  show ?case
  proof (cases "1 < k")
    case False
    with "1.prems" show ?thesis by (simp add: Propagate_loop.simps[of f g k])
  next
    case True
    with "1.prems"(6) obtain s1 where
      a: "push_inner f g (pos div 2 ^ k) s = Some s1"
      and b: "Propagate_loop f g (k - 1) pos s1 = Some s'"
      by (auto simp: Propagate_loop.simps[of f g k] split: option.splits)
    have t1: "tags_ok N s1" using "1.prems"(1) a by (rule push_inner_tags)
    have i1: "linv_except op f N {} s1"
      using "1.prems"(1,2) "1.prems"(3) "1.prems"(4) "1.prems"(5) a by (rule push_inner_linv)
    have id1: "f t (seg_identityUpdate s1) = t" for t
      using "1.prems"(3) frame_idUpd[OF push_inner_frame[OF a]] by simp
    from "1.IH"[OF True a t1 i1 id1 "1.prems"(4) "1.prems"(5) b] show ?thesis .
  qed
qed

lemma Propagate_linv:
  assumes "tags_ok N s" "linv_except op f N {} s" "\<And>t. f t (seg_identityUpdate s) = t"
    "\<And>a b u. f (op a b) u = op (f a u) (f b u)" "\<And>t u1 u2. f (f t u1) u2 = f t (g u1 u2)"
    "N \<le> pos" "Propagate f g pos s = Some s'"
  shows "linv_except op f N {} s'"
proof -
  from assms(7) obtain s1 where a: "Propagate_loop f g (seg_LOG s) pos s = Some s1"
    and b: "push_last f (pos div 2) s1 = Some s'"
    by (auto simp: Propagate_def bind_eq_Some_conv)
  have t1: "tags_ok N s1" using assms(1) a by (rule Propagate_loop_tags)
  have i1: "linv_except op f N {} s1"
    using assms(1,2) assms(3) assms(4) assms(5) a by (rule Propagate_loop_linv)
  have id1: "f t (seg_identityUpdate s1) = t" for t
    using assms(3) frame_idUpd[OF Propagate_loop_frame[OF a]] by simp
  show ?thesis using t1 i1 id1 assms(4) assms(6) b by (rule push_last_linv)
qed

lemma Query_linv:
  assumes "tags_ok N s" "linv_except op f N {} s" "\<And>t. f t (seg_identityUpdate s) = t"
    "\<And>a b u. f (op a b) u = op (f a u) (f b u)" "\<And>t u1 u2. f (f t u1) u2 = f t (g u1 u2)"
    "left < right" "Query op f g s left right = Some (x, s')"
  shows "linv_except op f N {} s'"
proof -
  have sz: "seg_size s = N" using assms(1) by (simp add: tags_ok_def)
  from assms(7) obtain s1 where
    a: "Propagate f g (left + N) s = Some s1"
    and b: "Propagate f g (right + N - 1) s1 = Some s'"
    unfolding Query_def sz by (auto simp: bind_eq_Some_conv)
  have p1: "N \<le> left + N" by simp
  have p2: "N \<le> right + N - 1" using assms(6) by simp
  have t1: "tags_ok N s1" using assms(1) a by (rule Propagate_tags)
  have i1: "linv_except op f N {} s1"
    using assms(1,2) assms(3) assms(4) assms(5) p1 a by (rule Propagate_linv)
  have id1: "f t (seg_identityUpdate s1) = t" for t
    using assms(3) frame_idUpd[OF Propagate_frame[OF a]] by simp
  show ?thesis using t1 i1 id1 assms(4) assms(5) p2 b by (rule Propagate_linv)
qed

subsection \<open>Update\<close>

lemma Update_leaves_linv:
  assumes "linv_except op f N {} s" "l < r" "N \<le> l" "Update_leaves f v l r s = Some s1"
  shows "linv_except op f N (chain (l div 2) \<union> chain ((r - 1) div 2)) s1"
proof -
  define B where "B = chain (l div 2) \<union> chain ((r - 1) div 2)"
  have i0: "linv_except op f N B s" using assms(1) by (rule linv_except_mono) simp
  have pl: "l div 2 \<in> B" unfolding B_def using chain_self[of "l div 2"] by simp
  have pr: "(r - 1) div 2 \<in> B" unfolding B_def using chain_self[of "(r - 1) div 2"] by simp
  have Nr: "N \<le> r - 1" using assms(2,3) by simp
  from assms(4) obtain s0 where
    a: "(if l mod 2 = 1 then tree_upd f l v s else Some s) = Some s0"
    and b: "(if r mod 2 = 1 then tree_upd f (r - 1) v s0 else Some s0) = Some s1"
    unfolding Update_leaves_def by (auto simp: bind_eq_Some_conv)
  have i1: "linv_except op f N B s0"
  proof (cases "l mod 2 = 1")
    case True
    with a have "tree_upd f l v s = Some s0" by simp
    with i0 pl assms(3) show ?thesis by (rule tree_upd_leaf_linv)
  next
    case False
    with a i0 show ?thesis by simp
  qed
  have "linv_except op f N B s1"
  proof (cases "r mod 2 = 1")
    case True
    with b have "tree_upd f (r - 1) v s0 = Some s1" by simp
    with i1 pr Nr show ?thesis by (rule tree_upd_leaf_linv)
  next
    case False
    with b i1 show ?thesis by simp
  qed
  then show ?thesis unfolding B_def .
qed

lemma div_pow_chain: "x div 2 ^ h div 2 \<in> chain (x div 2)"
proof -
  have "x div 2 ^ h div 2 = x div (2 ^ h * 2)" by (simp only: div_mult2_eq)
  also have "\<dots> = x div (2 * 2 ^ h)" by (simp add: mult.commute)
  also have "\<dots> = x div 2 div 2 ^ h" by (simp only: div_mult2_eq)
  finally show ?thesis unfolding chain_def by blast
qed

lemma div_pow_Suc: "(x::nat) div 2 ^ Suc h = x div 2 ^ h div 2"
proof -
  have "x div 2 ^ h div 2 = x div (2 ^ h * 2)" by (simp only: div_mult2_eq)
  then show ?thesis by (simp add: mult.commute)
qed

lemma odd_parent_left:
  "left mod 2 = 1 \<Longrightarrow> left = a \<or> left = a + 1 \<Longrightarrow> (left::nat) div 2 = a div 2"
  by (elim disjE; simp; arith)

lemma odd_parent_right:
  "right mod 2 = 1 \<Longrightarrow> right = b \<or> right = b + 1 \<Longrightarrow>
   ((right::nat) - 1) div 2 = b div 2"
  by (elim disjE; simp; arith)

lemma next_left:
  "left = a \<or> left = a + 1 \<Longrightarrow>
   (if left mod 2 = 1 then left + 1 else left) div 2 = a div 2 \<or>
   (if left mod 2 = 1 then left + 1 else (left::nat)) div 2 = a div 2 + 1"
  by (elim disjE; simp; arith)

lemma next_right:
  "right = b \<or> right = b + 1 \<Longrightarrow>
   (if right mod 2 = 1 then right - 1 else right) div 2 = b div 2 \<or>
   (if right mod 2 = 1 then right - 1 else (right::nat)) div 2 = b div 2 + 1"
  by (elim disjE; simp; arith)

lemma next_left_pos:
  "1 \<le> left \<Longrightarrow> 1 \<le> (if left mod 2 = 1 then left + 1 else (left::nat)) div 2"
  by (cases "left mod 2 = 1"; simp; arith)

lemma Update_loop_linv:
  "linv_except op f N (chain (l0 div 2) \<union> chain (r1 div 2)) s \<Longrightarrow>
   left = l0 div 2 ^ h \<or> left = l0 div 2 ^ h + 1 \<Longrightarrow>
   right = r1 div 2 ^ h \<or> right = r1 div 2 ^ h + 1 \<Longrightarrow>
   1 \<le> left \<Longrightarrow> (\<And>t u1 u2. f (f t u1) u2 = f t (g u1 u2)) \<Longrightarrow>
   Update_loop f g v left right s = Some s' \<Longrightarrow>
   linv_except op f N (chain (l0 div 2) \<union> chain (r1 div 2)) s'"
proof (induction f g v left right s arbitrary: h rule: Update_loop.induct)
  case (1 f g v left right s)
  define B where "B = chain (l0 div 2) \<union> chain (r1 div 2)"
  note inv = "1.prems"(1)[folded B_def]
  show ?case unfolding B_def[symmetric]
  proof (cases "left < right")
    case False
    with "1.prems"(6) inv show "linv_except op f N B s'"
      by (simp add: Update_loop.simps[of f g v left right])
  next
    case True
    define a where "a = l0 div 2 ^ h"
    define b where "b = r1 div 2 ^ h"
    note la = "1.prems"(2)[folded a_def]
    note rb = "1.prems"(3)[folded b_def]
    define s1o where "s1o = (if left mod 2 = 1 then touch f g left v s else Some s)"
    from "1.prems"(6) True obtain s1 where s1: "s1o = Some s1"
      unfolding s1o_def by (auto simp: Update_loop.simps[of f g v left right] split: option.splits)
    define s2o where "s2o = (if right mod 2 = 1 then touch f g (right - 1) v s1 else Some s1)"
    from "1.prems"(6) True s1 obtain s2 where s2: "s2o = Some s2"
      and rec: "Update_loop f g v ((if left mod 2 = 1 then left + 1 else left) div 2)
                   ((if right mod 2 = 1 then right - 1 else right) div 2) s2 = Some s'"
      unfolding s1o_def s2o_def
      by (auto simp: Update_loop.simps[of f g v left right] split: option.splits)
    have pa: "a div 2 \<in> B" unfolding a_def B_def using div_pow_chain[of l0 h] by simp
    have pb: "b div 2 \<in> B" unfolding b_def B_def using div_pow_chain[of r1 h] by simp
    have i1: "linv_except op f N B s1"
    proof (cases "left mod 2 = 1")
      case odd: True
      from odd la have "left div 2 = a div 2" by (rule odd_parent_left)
      with pa have p: "left div 2 \<in> B \<or> left div 2 = 0" by simp
      from s1 odd have "touch f g left v s = Some s1" by (simp add: s1o_def)
      from touch_linv[OF inv p "1.prems"(4) "1.prems"(5) this] show ?thesis .
    next
      case False
      with s1 inv show ?thesis by (simp add: s1o_def)
    qed
    have i2: "linv_except op f N B s2"
    proof (cases "right mod 2 = 1")
      case odd: True
      from odd rb have "(right - 1) div 2 = b div 2" by (rule odd_parent_right)
      with pb have p: "(right - 1) div 2 \<in> B \<or> (right - 1) div 2 = 0" by simp
      from True "1.prems"(4) have r1': "1 \<le> right - 1" by simp
      from s2 odd have "touch f g (right - 1) v s1 = Some s2" by (simp add: s2o_def)
      from touch_linv[OF i1 p r1' "1.prems"(5) this] show ?thesis .
    next
      case False
      with s2 i1 show ?thesis by (simp add: s2o_def)
    qed
    define L where "L = (if left mod 2 = 1 then left + 1 else left) div 2"
    define R where "R = (if right mod 2 = 1 then right - 1 else right) div 2"
    have la': "L = l0 div 2 ^ Suc h \<or> L = l0 div 2 ^ Suc h + 1"
      unfolding div_pow_Suc a_def[symmetric] L_def using la by (rule next_left)
    have rb': "R = r1 div 2 ^ Suc h \<or> R = r1 div 2 ^ Suc h + 1"
      unfolding div_pow_Suc b_def[symmetric] R_def using rb by (rule next_right)
    have L1: "1 \<le> L" unfolding L_def using "1.prems"(4) by (rule next_left_pos)
    note s1' = s1[unfolded s1o_def]
    note s2' = s2[unfolded s2o_def]
    note i2' = i2[unfolded B_def]
    note la'' = la'[unfolded L_def]
    note rb'' = rb'[unfolded R_def]
    note L1' = L1[unfolded L_def]
    have "linv_except op f N (chain (l0 div 2) \<union> chain (r1 div 2)) s'"
      using True s1' s2' i2' la'' rb'' L1' "1.prems"(5) rec by (rule "1.IH")
    then show "linv_except op f N B s'" unfolding B_def .
  qed
qed

lemma Update_linv:
  assumes tg: "tags_ok N s" and inv: "linv_except op f N {} s"
    and compat: "\<And>t u1 u2. f (f t u1) u2 = f t (g u1 u2)"
    and lr: "left < right" and N1: "1 \<le> N"
    and run: "Update op f g s left right v = Some s'"
  shows "linv_except op f N {} s'"
proof -
  have sz: "seg_size s = N" using tg by (simp add: tags_ok_def)
  define l where "l = left + N"
  define r where "r = right + N"
  define L where "L = (if l mod 2 = 1 then l + 1 else l) div 2"
  define R where "R = (if r mod 2 = 1 then r - 1 else r) div 2"
  define B where "B = chain (l div 2) \<union> chain ((r - 1) div 2)"
  from run obtain s1 s2 s3 where
    a: "Update_leaves f v l r s = Some s1"
    and b: "Update_loop f g v L R s1 = Some s2"
    and c: "recalculate_loop op f (l div 2) s2 = Some s3"
    and d: "recalculate_loop op f ((r - 1) div 2) s3 = Some s'"
    unfolding Update_def Let_def sz l_def r_def L_def R_def recalculate_after_update_def
    by (auto simp: bind_eq_Some_conv)
  have lr': "l < r" unfolding l_def r_def using lr by simp
  have Nl: "N \<le> l" unfolding l_def by simp
  have i1: "linv_except op f N B s1" unfolding B_def
    using inv lr' Nl a by (rule Update_leaves_linv)
  have "l = l \<or> l = l + 1" by simp
  then have la: "L = l div 2 ^ 1 \<or> L = l div 2 ^ 1 + 1"
    unfolding L_def power_one_right by (rule next_left)
  have "r = r - 1 \<or> r = r - 1 + 1" using lr' by simp
  then have rb: "R = (r - 1) div 2 ^ 1 \<or> R = (r - 1) div 2 ^ 1 + 1"
    unfolding R_def power_one_right by (rule next_right)
  have "1 \<le> l" using Nl N1 by simp
  then have L1: "1 \<le> L" unfolding L_def by (rule next_left_pos)
  have i2: "linv_except op f N B s2" unfolding B_def
    using i1[unfolded B_def] la rb L1 compat b by (rule Update_loop_linv)
  from recalculate_loop_linv[OF i2 c] have i3: "linv_except op f N (B - chain (l div 2)) s3" .
  from recalculate_loop_linv[OF i3 d]
  have i4: "linv_except op f N (B - chain (l div 2) - chain ((r - 1) div 2)) s'" .
  have e: "B - chain (l div 2) - chain ((r - 1) div 2) = {}" unfolding B_def by blast
  show ?thesis using i4 unfolding e .
qed

subsection \<open>The constructor and sequences of calls\<close>

lemma build_loop_length: "length (build_loop op k t) = length t"
  by (induction k arbitrary: t) simp_all

lemma build_loop_above: "k < j \<Longrightarrow> build_loop op k t ! j = t ! j"
  by (induction k arbitrary: t) simp_all

lemma build_loop_node:
  "1 \<le> i \<Longrightarrow> i \<le> k \<Longrightarrow> k < length t \<Longrightarrow>
   build_loop op k t ! i = op (build_loop op k t ! (2 * i)) (build_loop op k t ! (2 * i + 1))"
proof (induction k arbitrary: t)
  case 0
  then show ?case by simp
next
  case (Suc k)
  define t' where "t' = t[Suc k := op (t ! (2 * Suc k)) (t ! (2 * Suc k + 1))]"
  have b: "build_loop op (Suc k) t = build_loop op k t'" by (simp add: t'_def)
  have len: "k < length t'" using Suc.prems(3) by (simp add: t'_def)
  show ?case
  proof (cases "i = Suc k")
    case True
    have "build_loop op k t' ! Suc k = t' ! Suc k" by (rule build_loop_above) simp
    also have "\<dots> = op (t ! (2 * Suc k)) (t ! (2 * Suc k + 1))"
      using Suc.prems(3) by (simp add: t'_def)
    finally have x: "build_loop op k t' ! Suc k = op (t ! (2 * Suc k)) (t ! (2 * Suc k + 1))" .
    have "build_loop op k t' ! (2 * Suc k) = t' ! (2 * Suc k)" by (rule build_loop_above) simp
    then have y: "build_loop op k t' ! (2 * Suc k) = t ! (2 * Suc k)" by (simp add: t'_def)
    have "build_loop op k t' ! (2 * Suc k + 1) = t' ! (2 * Suc k + 1)"
      by (rule build_loop_above) simp
    then have z: "build_loop op k t' ! (2 * Suc k + 1) = t ! (2 * Suc k + 1)"
      by (simp add: t'_def)
    show ?thesis unfolding b True x y z ..
  next
    case False
    with Suc.prems(2) have "i \<le> k" by simp
    from Suc.IH[OF Suc.prems(1) this len] show ?thesis unfolding b .
  qed
qed

lemma range_tags_ok:
  "tags_ok (length xs) (LazyPropSegtree_range op dflt xs idOp idUpd)"
  by (simp add: tags_ok_def LazyPropSegtree_range_def build_loop_length)

lemma range_linv:
  assumes "\<And>t. f t idUpd = t" "1 \<le> length xs"
  shows "linv_except op f (length xs) {} (LazyPropSegtree_range op dflt xs idOp idUpd)"
proof (rule linv_exceptI)
  fix i assume i: "1 \<le> i" "i < length xs"
  define t where "t = replicate (length xs) dflt @ xs"
  have "i \<le> length xs - 1" using i by simp
  moreover have "length xs - 1 < length t" using assms(2) by (simp add: t_def)
  ultimately have "build_loop op (length xs - 1) t ! i =
     op (build_loop op (length xs - 1) t ! (2 * i)) (build_loop op (length xs - 1) t ! (2 * i + 1))"
    using i(1) by (intro build_loop_node)
  then show "node_inv op f (LazyPropSegtree_range op dflt xs idOp idUpd) i"
    using i assms(1) by (simp add: node_inv_def LazyPropSegtree_range_def t_def)
qed

lemma run_dense_linv:
  "tags_ok N s \<Longrightarrow> linv_except op f N {} s \<Longrightarrow> seg_identityUpdate s = idUpd \<Longrightarrow>
   laws op f g idUpd \<Longrightarrow> 1 \<le> N \<Longrightarrow> calls_nonempty N cs \<Longrightarrow>
   run_dense op f g s cs = Some (res, s') \<Longrightarrow> linv_except op f N {} s'"
proof (induction cs arbitrary: s res)
  case Nil
  then show ?case by simp
next
  case (Cons c cs)
  have ident: "\<And>t. f t idUpd = t"
    and distrib: "\<And>a b u. f (op a b) u = op (f a u) (f b u)"
    and compat: "\<And>t u1 u2. f (f t u1) u2 = f t (g u1 u2)"
    using Cons.prems(4) by (simp_all add: laws_def)
  show ?case
  proof (cases c)
    case (CQuery l r)
    with Cons.prems(6) have lr: "l < r" "r \<le> N" and rest: "calls_nonempty N cs" by simp_all
    from Cons.prems(7) CQuery obtain x s1 xs where
      q: "Query op f g s l r = Some (x, s1)" and run: "run_dense op f g s1 cs = Some (xs, s')"
      by (auto split: option.splits)
    have t1: "tags_ok N s1" using Cons.prems(1) q by (rule Query_tags)
    have id1: "seg_identityUpdate s1 = idUpd"
      using frame_idUpd[OF Query_frame[OF q]] Cons.prems(3) by simp
    have ident': "\<And>t. f t (seg_identityUpdate s) = t" using ident Cons.prems(3) by simp
    have i1: "linv_except op f N {} s1"
      using Cons.prems(1,2) ident' distrib compat lr(1) q by (rule Query_linv)
    from Cons.IH[OF t1 i1 id1 Cons.prems(4,5) rest run] show ?thesis .
  next
    case (CUpdate l r v)
    with Cons.prems(6) have lr: "l < r" "r \<le> N" and rest: "calls_nonempty N cs" by simp_all
    from Cons.prems(7) CUpdate obtain s1 where
      u: "Update op f g s l r v = Some s1" and run: "run_dense op f g s1 cs = Some (res, s')"
      by (auto split: option.splits)
    have t1: "tags_ok N s1" using Cons.prems(1) lr(2) u by (rule Update_tags)
    have id1: "seg_identityUpdate s1 = idUpd"
      using frame_idUpd[OF Update_frame[OF u]] Cons.prems(3) by simp
    have i1: "linv_except op f N {} s1"
      using Cons.prems(1,2) compat lr(1) Cons.prems(5) u by (rule Update_linv)
    from Cons.IH[OF t1 i1 id1 Cons.prems(4,5) rest run] show ?thesis .
  qed
qed

text \<open>
  What every call with a range that is not empty does maintain, under the three laws
  above, on a tree built from a range of \<open>N \<ge> 1\<close> elements: every internal node
  \<open>i\<close> satisfies \<^verbatim>\<open>tree_[i] = updVal(op(tree_[2 * i], tree_[2 * i + 1]), lazy_[i])\<close>. The
  equation relates stored values only; it does not say that \<^verbatim>\<open>tree_[i]\<close> is the
  aggregate of the elements, which fails when an update arrives under a pending tag
  that it does not commute with.
\<close>

lemma node_combines_children_and_tag:
  assumes "laws op updVal updLazy idUpd" "1 \<le> length xs" "calls_nonempty (length xs) cs"
  shows "\<exists>res s.
           run_dense op updVal updLazy (LazyPropSegtree_range op dflt xs idOp idUpd) cs = Some (res, s)
           \<and> (\<forall>i. 1 \<le> i \<and> i < length xs \<longrightarrow>
                 seg_tree s ! i =
                   updVal (op (seg_tree s ! (2 * i)) (seg_tree s ! (2 * i + 1))) (seg_lazy s ! i))"
proof -
  define s0 where "s0 = LazyPropSegtree_range op dflt xs idOp idUpd"
  have t0: "tags_ok (length xs) s0" unfolding s0_def by (rule range_tags_ok)
  have ident: "\<And>t. updVal t idUpd = t" using assms(1) by (simp add: laws_def)
  have i0: "linv_except op updVal (length xs) {} s0"
    unfolding s0_def using ident assms(2) by (rule range_linv)
  have id0: "seg_identityUpdate s0 = idUpd" by (simp add: s0_def LazyPropSegtree_range_def)
  from run_dense_total[OF t0 assms(2) calls_nonempty_inside[OF assms(3)]]
  obtain res s where run: "run_dense op updVal updLazy s0 cs = Some (res, s)" by blast
  have inv: "linv_except op updVal (length xs) {} s"
    using t0 i0 id0 assms(1,2,3) run by (rule run_dense_linv)
  have "\<forall>i. 1 \<le> i \<and> i < length xs \<longrightarrow>
          seg_tree s ! i = updVal (op (seg_tree s ! (2 * i)) (seg_tree s ! (2 * i + 1))) (seg_lazy s ! i)"
    using inv by (simp add: linv_except_def node_inv_def)
  with run show ?thesis unfolding s0_def by blast
qed

end
